theory Spec2Isabelle
  imports Main "HOL-Library.Word" "HOL-Library.Sublist"
begin

section \<open>Data model of the S3 read-seeker\<close>

text \<open>
  Go's \<^verbatim>\<open>int64\<close> is a 64-bit word read in two's complement: \<open>+\<close> and \<open>-\<close> wrap,
  comparisons are the signed ones (\<open>\<le>s\<close>, \<open><s\<close>). A byte slice is a list of bytes.
  A byte count (Go's \<^verbatim>\<open>int\<close> results \<^verbatim>\<open>n\<close>, \<^verbatim>\<open>m\<close>) never exceeds the length of the
  slice it counts, so it is a natural number.
\<close>

type_synonym int64 = "64 word"
type_synonym byte = "8 word"

text \<open>
  The error values the package can return: the two sentinels of Go's \<^verbatim>\<open>io\<close> package,
  the two errors that \<^verbatim>\<open>Seek\<close> builds with \<^verbatim>\<open>fmt.Errorf\<close> (carrying the number
  that is printed into the message), and any error of the storage service.
\<close>

datatype error =
    EOF
  | ErrUnexpectedEOF
  | InvalidWhence int
  | InvalidOffset int64
  | ServiceError string

text \<open>A Go runtime panic (slice bounds out of range, nil dereference) is not an error value.\<close>

datatype 'a outcome = Return 'a | Panic

subsection \<open>The storage client\<close>

text \<open>
  The request of \<^verbatim>\<open>GetObject\<close> carries the bucket, the key and the range header
  \<^verbatim>\<open>"bytes=%d-%d"\<close>, kept as the pair of the two printed numbers. The response body is
  a reader: the bytes it delivers, and the error that ends it (\<open>EOF\<close> when the
  data simply ends). \<^verbatim>\<open>HeadObject\<close> answers with a \<^verbatim>\<open>ContentLength\<close> pointer, which may be nil.
\<close>

record GetObjectInput =
  Bucket :: string
  Key :: string
  Range :: "int64 \<times> int64"

record HeadObjectInput =
  HBucket :: string
  HKey :: string

record HeadObjectOutput =
  ContentLength :: "int64 option"

type_synonym body = "byte list \<times> error"

record s3_client =
  GetObject :: "GetObjectInput \<Rightarrow> error + body"
  HeadObject :: "HeadObjectInput \<Rightarrow> error + HeadObjectOutput"

text \<open>
  \<^verbatim>\<open>io.ReadFull(r, buf)\<close> of Go's standard library, after its documentation:
  it reads exactly \<^verbatim>\<open>len(buf)\<close> bytes; the error is nil exactly when that many
  were read; it is \<^verbatim>\<open>EOF\<close> only if no bytes were read, and an \<^verbatim>\<open>EOF\<close> after some
  but not all bytes becomes \<^verbatim>\<open>ErrUnexpectedEOF\<close>; any other error of the
  reader is returned as it is. The result is the count, the error and the
  buffer after the call.
\<close>

definition ReadFull :: "body \<Rightarrow> byte list \<Rightarrow> nat \<times> error option \<times> byte list" where
  "ReadFull r buf =
     (case r of (delivered, fin) \<Rightarrow>
        if length buf \<le> length delivered
        then (length buf, None, take (length buf) delivered)
        else (length delivered,
              Some (if 0 < length delivered \<and> fin = EOF then ErrUnexpectedEOF else fin),
              delivered @ drop (length delivered) buf))"

subsection \<open>Object\<close>

record Object =
  client :: s3_client
  bucketName :: string
  key :: string
  size_o :: int64
  offset_o :: int64

text \<open>
  \<^verbatim>\<open>Object.ReadAt\<close>: one ranged \<^verbatim>\<open>GetObject\<close> for \<^verbatim>\<open>[off, off+len(p)-1]\<close>, then
  \<^verbatim>\<open>io.ReadFull\<close> of the body into \<open>p\<close>. The last component is the request issued.
\<close>

definition Object_ReadAt ::
  "Object \<Rightarrow> byte list \<Rightarrow> int64 \<Rightarrow> nat \<times> error option \<times> byte list \<times> GetObjectInput" where
  "Object_ReadAt obj p off =
     (let input = \<lparr>Bucket = bucketName obj, Key = key obj,
                    Range = (off, off + of_nat (length p) - 1)\<rparr>
      in case GetObject (client obj) input of
           Inl e \<Rightarrow> (0, Some e, p, input)
         | Inr result \<Rightarrow>
             (case ReadFull result p of (m, err, p') \<Rightarrow> (m, err, p', input)))"

subsection \<open>S3ReadSeeker\<close>

record S3ReadSeeker =
  rs_client :: s3_client
  rs_bucketName :: string
  objectMembers :: "Object list"
  globalOffset :: int64

text \<open>
  \<^verbatim>\<open>NewS3ReadSeeker\<close>: one \<^verbatim>\<open>HeadObject\<close> per key, in order; the first error ends the
  construction with that error and no stream. The slots of \<^verbatim>\<open>objectMembers\<close> are
  assigned in index order, so the filled prefix is the accumulator \<open>acc\<close>. The second
  component lists the lookups issued.
\<close>

fun New_loop ::
  "s3_client \<Rightarrow> string \<Rightarrow> string list \<Rightarrow> Object list \<Rightarrow> HeadObjectInput list
     \<Rightarrow> (error + Object list) outcome \<times> HeadObjectInput list" where
  "New_loop c b [] acc tr = (Return (Inr acc), tr)"
| "New_loop c b (k # ks) acc tr =
     (let headInput = \<lparr>HBucket = b, HKey = k\<rparr> in
      case HeadObject c headInput of
        Inl e \<Rightarrow> (Return (Inl e), tr @ [headInput])
      | Inr result \<Rightarrow>
          (case ContentLength result of
             None \<Rightarrow> (Panic, tr @ [headInput])
           | Some sz \<Rightarrow>
               New_loop c b ks
                 (acc @ [\<lparr>client = c, bucketName = b, key = k, size_o = sz, offset_o = 0\<rparr>])
                 (tr @ [headInput])))"

definition NewS3ReadSeeker ::
  "s3_client \<Rightarrow> string \<Rightarrow> string list
     \<Rightarrow> (error + S3ReadSeeker) outcome \<times> HeadObjectInput list" where
  "NewS3ReadSeeker c b keyGroup =
     (case New_loop c b keyGroup [] [] of
        (Return (Inr objs), tr) \<Rightarrow>
          (Return (Inr \<lparr>rs_client = c, rs_bucketName = b, objectMembers = objs,
                        globalOffset = 0\<rparr>), tr)
      | (Return (Inl e), tr) \<Rightarrow> (Return (Inl e), tr)
      | (Panic, tr) \<Rightarrow> (Panic, tr))"

subsection \<open>ReadAt\<close>

text \<open>
  A slice expression \<^verbatim>\<open>p[lo:hi]\<close> panics unless \<open>0 \<le> lo \<le> hi \<le> cap(p)\<close>; the
  buffer is taken with its capacity equal to its length. The callee writes into the
  sub-slice, which shares the array of \<open>p\<close>: \<open>write_back\<close> puts the bytes in place.
\<close>

definition slice_ok :: "byte list \<Rightarrow> int64 \<Rightarrow> int64 \<Rightarrow> bool" where
  "slice_ok p lo hi \<longleftrightarrow> 0 \<le>s lo \<and> lo \<le>s hi \<and> sint hi \<le> int (length p)"

definition slice :: "byte list \<Rightarrow> int64 \<Rightarrow> int64 \<Rightarrow> byte list" where
  "slice p lo hi = take (nat (sint hi) - nat (sint lo)) (drop (nat (sint lo)) p)"

definition write_back :: "byte list \<Rightarrow> int64 \<Rightarrow> byte list \<Rightarrow> byte list" where
  "write_back p lo sub =
     take (nat (sint lo)) p @ sub @ drop (nat (sint lo) + length sub) p"

text \<open>
  One entry per call of \<^verbatim>\<open>Object.ReadAt\<close>: the request it issued, the bounds of the
  destination slice within \<open>p\<close>, and the byte count it returned.
\<close>

record fetch =
  f_input :: GetObjectInput
  f_lo :: nat
  f_hi :: nat
  f_m :: nat

record read_result =
  rr_n :: nat
  rr_err :: "error option"
  rr_buf :: "byte list"
  rr_fetches :: "fetch list"

definition len64 :: "byte list \<Rightarrow> int64" where
  "len64 p = of_nat (length p)"

text \<open>
  The loop of \<^verbatim>\<open>S3ReadSeeker.ReadAt\<close> over the remaining objects, with the local
  variables \<open>off\<close>, \<open>pOff\<close> and \<open>n\<close>, the buffer and the fetches issued so far.
\<close>

fun ReadAt_loop ::
  "Object list \<Rightarrow> byte list \<Rightarrow> int64 \<Rightarrow> int64 \<Rightarrow> nat \<Rightarrow> fetch list
     \<Rightarrow> read_result outcome" where
  "ReadAt_loop [] p off pOff n tr =
     Return \<lparr>rr_n = 0, rr_err = Some EOF, rr_buf = p, rr_fetches = tr\<rparr>"
| "ReadAt_loop (obj # objs) p off pOff n tr =
     (if size_o obj \<le>s off then ReadAt_loop objs p (off - size_o obj) pOff n tr
      else if \<not> slice_ok p pOff (len64 p) then Panic
      else
        let end = off + len64 (slice p pOff (len64 p)) - 1 in
        if size_o obj <s end + 1 then
          let newPOff = pOff + (size_o obj - off) in
          if \<not> slice_ok p pOff newPOff then Panic
          else
            (case Object_ReadAt obj (slice p pOff newPOff) off of
               (m, err, sub, input) \<Rightarrow>
                 let p' = write_back p pOff sub;
                     tr' = tr @ [\<lparr>f_input = input, f_lo = nat (sint pOff),
                                  f_hi = nat (sint newPOff), f_m = m\<rparr>]
                 in (case err of
                       Some e \<Rightarrow> Return \<lparr>rr_n = n, rr_err = Some e, rr_buf = p', rr_fetches = tr'\<rparr>
                     | None \<Rightarrow> ReadAt_loop objs p' 0 newPOff (n + m) tr'))
        else
          (case Object_ReadAt obj (slice p pOff (len64 p)) off of
             (m, err, sub, input) \<Rightarrow>
               let p' = write_back p pOff sub;
                   tr' = tr @ [\<lparr>f_input = input, f_lo = nat (sint pOff),
                                f_hi = length p, f_m = m\<rparr>]
               in (case err of
                     Some e \<Rightarrow> Return \<lparr>rr_n = n, rr_err = Some e, rr_buf = p', rr_fetches = tr'\<rparr>
                   | None \<Rightarrow>
                       Return \<lparr>rr_n = n + m, rr_err = None, rr_buf = p', rr_fetches = tr'\<rparr>)))"

text \<open>The method returns its receiver as well, so that its effect on the stream is explicit.\<close>

definition ReadAt ::
  "S3ReadSeeker \<Rightarrow> byte list \<Rightarrow> int64 \<Rightarrow> S3ReadSeeker \<times> read_result outcome" where
  "ReadAt s p off = (s, ReadAt_loop (objectMembers s) p off 0 0 [])"

subsection \<open>Read\<close>

definition Read :: "S3ReadSeeker \<Rightarrow> byte list \<Rightarrow> S3ReadSeeker \<times> read_result outcome" where
  "Read s p =
     (case ReadAt s p (globalOffset s) of
        (s1, Panic) \<Rightarrow> (s1, Panic)
      | (s1, Return r) \<Rightarrow>
          (case rr_err r of
             Some e \<Rightarrow> (s1, Return r)
           | None \<Rightarrow> (s1\<lparr>globalOffset := globalOffset s1 + of_nat (rr_n r)\<rparr>, Return r)))"

subsection \<open>Seek\<close>

definition SeekStart :: int where "SeekStart = 0"
definition SeekCurrent :: int where "SeekCurrent = 1"
definition SeekEnd :: int where "SeekEnd = 2"

definition Seek ::
  "S3ReadSeeker \<Rightarrow> int64 \<Rightarrow> int \<Rightarrow> S3ReadSeeker \<times> int64 \<times> error option" where
  "Seek s offset whence =
     (case (if whence = SeekStart then Some offset
            else if whence = SeekCurrent then Some (globalOffset s + offset)
            else if whence = SeekEnd
              then Some (foldl (\<lambda>newOffset obj. newOffset + size_o obj) 0 (objectMembers s)
                         + offset)
            else None) of
        None \<Rightarrow> (s, 0, Some (InvalidWhence whence))
      | Some newOffset \<Rightarrow>
          if newOffset <s 0 then (s, 0, Some (InvalidOffset newOffset))
          else (s\<lparr>globalOffset := newOffset\<rparr>, newOffset, None))"


section \<open>Notions of the specification\<close>

text \<open>
  A client serves an object with contents \<open>d\<close> when the recorded size is the length of
  \<open>d\<close> and every ranged request for the bytes \<open>[i, j)\<close> of \<open>d\<close> is answered with a body
  that delivers at least these bytes. Nothing is asked of the answer to an empty range
  beyond its being a body.
\<close>

definition serves :: "Object \<Rightarrow> byte list \<Rightarrow> bool" where
  "serves obj d \<longleftrightarrow>
     length d < 2 ^ 63 \<and> size_o obj = of_nat (length d) \<and>
     (\<forall>i j. i \<le> j \<and> j \<le> length d \<longrightarrow>
        (\<exists>delivered fin.
           GetObject (client obj)
             \<lparr>Bucket = bucketName obj, Key = key obj, Range = (of_nat i, of_nat j - 1)\<rparr>
             = Inr (delivered, fin) \<and>
           j - i \<le> length delivered \<and>
           take (j - i) delivered = take (j - i) (drop i d)))"

text \<open>The size lookups of the construction, read off the client.\<close>

definition discovered :: "s3_client \<Rightarrow> string \<Rightarrow> string \<Rightarrow> int64 option" where
  "discovered c b k =
     (case HeadObject c \<lparr>HBucket = b, HKey = k\<rparr> of
        Inl e \<Rightarrow> None
      | Inr result \<Rightarrow> ContentLength result)"

definition lookup_error :: "s3_client \<Rightarrow> string \<Rightarrow> string \<Rightarrow> error option" where
  "lookup_error c b k =
     (case HeadObject c \<lparr>HBucket = b, HKey = k\<rparr> of
        Inl e \<Rightarrow> Some e
      | Inr result \<Rightarrow> None)"

definition new_object :: "s3_client \<Rightarrow> string \<Rightarrow> string \<Rightarrow> Object" where
  "new_object c b k =
     \<lparr>client = c, bucketName = b, key = k, size_o = the (discovered c b k), offset_o = 0\<rparr>"

text \<open>
  The fetches, the final buffer and the completion of a read, computed from the segment
  sizes and contents alone: \<open>o1\<close> is the offset into the remaining segments, \<open>q\<close> the
  write position in the buffer of length \<open>L\<close>.
\<close>

fun plan :: "Object list \<Rightarrow> nat list \<Rightarrow> nat \<Rightarrow> nat \<Rightarrow> nat \<Rightarrow> fetch list" where
  "plan (obj # objs) (sz # szs) o1 q L =
     (if sz \<le> o1 then plan objs szs (o1 - sz) q L
      else if sz < o1 + (L - q) then
        \<lparr>f_input = \<lparr>Bucket = bucketName obj, Key = key obj, Range = (of_nat o1, of_nat sz - 1)\<rparr>,
         f_lo = q, f_hi = q + (sz - o1), f_m = sz - o1\<rparr>
        # plan objs szs 0 (q + (sz - o1)) L
      else
        [\<lparr>f_input = \<lparr>Bucket = bucketName obj, Key = key obj,
                     Range = (of_nat o1, of_nat (o1 + (L - q)) - 1)\<rparr>,
          f_lo = q, f_hi = L, f_m = L - q\<rparr>])"
| "plan _ _ o1 q L = []"

fun filled :: "byte list list \<Rightarrow> nat \<Rightarrow> nat \<Rightarrow> byte list \<Rightarrow> byte list" where
  "filled [] o1 q p = p"
| "filled (d # ds) o1 q p =
     (if length d \<le> o1 then filled ds (o1 - length d) q p
      else if length d < o1 + (length p - q) then
        filled ds 0 (q + (length d - o1)) (take q p @ drop o1 d @ drop (q + (length d - o1)) p)
      else take q p @ take (length p - q) (drop o1 d))"

fun covers :: "nat list \<Rightarrow> nat \<Rightarrow> nat \<Rightarrow> bool" where
  "covers [] o1 r = False"
| "covers (sz # szs) o1 r =
     (if sz \<le> o1 then covers szs (o1 - sz) r
      else if sz < o1 + r then covers szs 0 (r - (sz - o1))
      else True)"

text \<open>
  The end positions of the segments within the logical stream. A boundary between
  segments is an end position with data beyond it; a request of length \<open>L\<close> at offset
  \<open>g\<close> spans the boundaries that lie strictly inside its range. Segments of size 0
  give the same position twice, and a position counts once. \<open>crossed\<close> is the set of
  these positions on a list of sizes, for the segments that remain.
\<close>

fun ends :: "nat list \<Rightarrow> nat \<Rightarrow> nat list" where
  "ends [] base = []"
| "ends (sz # szs) base = (base + sz) # ends szs (base + sz)"

definition crossed :: "nat list \<Rightarrow> nat \<Rightarrow> nat \<Rightarrow> nat set" where
  "crossed szs o1 r = {c \<in> set (ends szs 0). o1 < c \<and> c < o1 + r \<and> c < sum_list szs}"

text \<open>The bytes a read returns: the first \<open>n\<close> bytes of the buffer.\<close>

definition got :: "read_result \<Rightarrow> byte list" where
  "got r = take (rr_n r) (rr_buf r)"

definition seg_sizes :: "S3ReadSeeker \<Rightarrow> nat list" where
  "seg_sizes s = map (\<lambda>obj. nat (sint (size_o obj))) (objectMembers s)"

definition total_size :: "S3ReadSeeker \<Rightarrow> nat" where
  "total_size s = sum_list (seg_sizes s)"

definition boundaries :: "S3ReadSeeker \<Rightarrow> nat list" where
  "boundaries s = filter (\<lambda>c. c < total_size s) (ends (seg_sizes s) 0)"

definition spanned :: "S3ReadSeeker \<Rightarrow> nat \<Rightarrow> nat \<Rightarrow> nat" where
  "spanned s g L = card (set (filter (\<lambda>c. g < c \<and> c < g + L) (boundaries s)))"

text \<open>
  The calls a client can make on a stream, and the stream after a sequence of them.
\<close>

datatype op = OpRead "byte list" | OpReadAt "byte list" int64 | OpSeek int64 int

fun apply_op :: "S3ReadSeeker \<Rightarrow> op \<Rightarrow> S3ReadSeeker" where
  "apply_op s (OpRead p) = fst (Read s p)"
| "apply_op s (OpReadAt p off) = fst (ReadAt s p off)"
| "apply_op s (OpSeek offset whence) = fst (Seek s offset whence)"

definition run :: "S3ReadSeeker \<Rightarrow> op list \<Rightarrow> S3ReadSeeker" where
  "run s ops = foldl apply_op s ops"

fun buffer_length :: "op \<Rightarrow> nat" where
  "buffer_length (OpRead p) = length p"
| "buffer_length (OpReadAt p off) = length p"
| "buffer_length (OpSeek offset whence) = 0"

section \<open>An in-memory storage service\<close>

text \<open>
  Objects are stored under their keys. A range whose end precedes its start is not a
  range and the whole object is sent; a range that starts outside the object is refused.
\<close>

definition mem_GetObject :: "(string \<times> byte list) list \<Rightarrow> GetObjectInput \<Rightarrow> error + body" where
  "mem_GetObject store input =
     (case map_of store (Key input) of
        None \<Rightarrow> Inl (ServiceError ''NoSuchKey'')
      | Some d \<Rightarrow>
          (case Range input of (lo, hi) \<Rightarrow>
             if hi <s lo then Inr (d, EOF)
             else if lo <s 0 \<or> int (length d) \<le> sint lo
               then Inl (ServiceError ''InvalidRange'')
             else Inr (take (nat (sint hi) + 1 - nat (sint lo)) (drop (nat (sint lo)) d),
                       EOF)))"

definition mem_HeadObject ::
  "(string \<times> byte list) list \<Rightarrow> HeadObjectInput \<Rightarrow> error + HeadObjectOutput" where
  "mem_HeadObject store input =
     (case map_of store (HKey input) of
        None \<Rightarrow> Inl (ServiceError ''NotFound'')
      | Some d \<Rightarrow> Inr \<lparr>ContentLength = Some (of_nat (length d))\<rparr>)"

definition mem_client :: "(string \<times> byte list) list \<Rightarrow> s3_client" where
  "mem_client store = \<lparr>GetObject = mem_GetObject store, HeadObject = mem_HeadObject store\<rparr>"

definition store2 :: "(string \<times> byte list) list" where
  "store2 = [(''a'', [1, 2]), (''b'', [3])]"

definition object_a :: Object where
  "object_a = \<lparr>client = mem_client store2, bucketName = ''bk'', key = ''a'',
                size_o = 2, offset_o = 0\<rparr>"

definition object_b :: Object where
  "object_b = \<lparr>client = mem_client store2, bucketName = ''bk'', key = ''b'',
                size_o = 1, offset_o = 0\<rparr>"

definition stream2 :: S3ReadSeeker where
  "stream2 = \<lparr>rs_client = mem_client store2, rs_bucketName = ''bk'',
               objectMembers = [object_a, object_b], globalOffset = 0\<rparr>"



text \<open>A service that reports a size at the top of the range of \<^verbatim>\<open>int64\<close>.\<close>

definition big_client :: s3_client where
  "big_client = \<lparr>GetObject = (\<lambda>input. Inr ([7, 7, 7], EOF)),
                  HeadObject = (\<lambda>input. Inr \<lparr>ContentLength = Some 9223372036854775807\<rparr>)\<rparr>"

definition big_stream :: S3ReadSeeker where
  "big_stream = \<lparr>rs_client = big_client, rs_bucketName = ''bk'',
       objectMembers = [\<lparr>client = big_client, bucketName = ''bk'', key = ''a'',
                          size_o = 9223372036854775807, offset_o = 0\<rparr>],
       globalOffset = 0\<rparr>"

text \<open>A service that reports a negative size for the key \<open>a\<close>.\<close>

definition neg_client :: s3_client where
  "neg_client = \<lparr>GetObject = (\<lambda>input. Inr ([7, 7, 7, 7, 7], EOF)),
                  HeadObject = (\<lambda>input. Inr \<lparr>ContentLength =
                     Some (if HKey input = ''a'' then - 3 else 10)\<rparr>)\<rparr>"

definition neg_stream :: S3ReadSeeker where
  "neg_stream = \<lparr>rs_client = neg_client, rs_bucketName = ''bk'',
       objectMembers = [\<lparr>client = neg_client, bucketName = ''bk'', key = ''a'',
                          size_o = - 3, offset_o = 0\<rparr>,
                        \<lparr>client = neg_client, bucketName = ''bk'', key = ''b'',
                          size_o = 10, offset_o = 0\<rparr>],
       globalOffset = 0\<rparr>"

section \<open>Arithmetic of 64-bit offsets\<close>

lemma sint_of_nat64: "n < 2 ^ 63 \<Longrightarrow> sint (of_nat n :: int64) = int n"
  by (simp add: signed_of_nat signed_take_bit_int_eq_self)

lemma nat_sint_of_nat64: "n < 2 ^ 63 \<Longrightarrow> nat (sint (of_nat n :: int64)) = n"
  by (simp add: sint_of_nat64)

lemma sle_of_nat64:
  "m < 2 ^ 63 \<Longrightarrow> n < 2 ^ 63 \<Longrightarrow> (of_nat m :: int64) \<le>s of_nat n \<longleftrightarrow> m \<le> n"
  by (simp add: word_sle_eq sint_of_nat64)

lemma sless_of_nat64:
  "m < 2 ^ 63 \<Longrightarrow> n < 2 ^ 63 \<Longrightarrow> (of_nat m :: int64) <s of_nat n \<longleftrightarrow> m < n"
  by (simp add: word_sless_alt sint_of_nat64)

lemmas eval_defs = stream2_def object_a_def object_b_def ReadAt_def Read_def store2_def
  mem_client_def mem_GetObject_def mem_HeadObject_def Object_ReadAt_def ReadFull_def
  slice_ok_def slice_def write_back_def len64_def Let_def word_sle_eq word_sless_alt

section \<open>Seek\<close>

lemma foldl_size_sum:
  "foldl (\<lambda>newOffset obj. newOffset + size_o obj) a objs = a + sum_list (map size_o objs)"
  by (induction objs arbitrary: a) (simp_all add: add.assoc)

text \<open>
  Claim C4. For every cursor and every offset and whence, \<open>Seek\<close> computes the new
  cursor as \<open>offset\<close> from the start, \<open>cursor + offset\<close> from the current position and
  the sum of all segment sizes plus \<open>offset\<close> from the end, the additions being those
  of \<^verbatim>\<open>int64\<close>. Any other whence fails with the invalid-whence error, a negative computed
  cursor with the invalid-offset error, and in both cases the stream is unchanged.
  Otherwise the computed cursor is committed and returned, whatever its size.
\<close>

theorem Seek_computes_cursor:
  "Seek s offset whence =
     (if whence \<noteq> SeekStart \<and> whence \<noteq> SeekCurrent \<and> whence \<noteq> SeekEnd
      then (s, 0, Some (InvalidWhence whence))
      else
        let newOffset =
              (if whence = SeekStart then offset
               else if whence = SeekCurrent then globalOffset s + offset
               else sum_list (map size_o (objectMembers s)) + offset)
        in if newOffset <s 0 then (s, 0, Some (InvalidOffset newOffset))
           else (s\<lparr>globalOffset := newOffset\<rparr>, newOffset, None))"
  by (simp add: Seek_def foldl_size_sum Let_def)

theorem Seek_computes_cursor_witness:
  "Seek stream2 5 SeekEnd = (stream2\<lparr>globalOffset := 8\<rparr>, 8, None) \<and>
   Seek (stream2\<lparr>globalOffset := 8\<rparr>) (- 3) SeekCurrent
     = (stream2\<lparr>globalOffset := 5\<rparr>, 5, None) \<and>
   Seek (stream2\<lparr>globalOffset := 8\<rparr>) (- 9) SeekCurrent
     = (stream2\<lparr>globalOffset := 8\<rparr>, 0, Some (InvalidOffset (- 1))) \<and>
   Seek (stream2\<lparr>globalOffset := 8\<rparr>) 4 7
     = (stream2\<lparr>globalOffset := 8\<rparr>, 0, Some (InvalidWhence 7))"
  using Seek_computes_cursor [of stream2 5 SeekEnd]
    Seek_computes_cursor [of "stream2\<lparr>globalOffset := 8\<rparr>" "- 3" SeekCurrent]
    Seek_computes_cursor [of "stream2\<lparr>globalOffset := 8\<rparr>" "- 9" SeekCurrent]
    Seek_computes_cursor [of "stream2\<lparr>globalOffset := 8\<rparr>" 4 7]
  by (simp add: SeekStart_def SeekCurrent_def SeekEnd_def stream2_def object_a_def object_b_def
      word_sless_alt)

text \<open>
  Within the range of \<^verbatim>\<open>int64\<close> the sum from the current position is the sum of
  the integers.
\<close>

lemma Seek_current_in_range:
  assumes "0 \<le> sint (globalOffset s) + sint offset" "sint (globalOffset s) + sint offset < 2 ^ 63"
  shows "Seek s offset SeekCurrent =
           (s\<lparr>globalOffset := globalOffset s + offset\<rparr>, globalOffset s + offset, None) \<and>
         sint (globalOffset s + offset) = sint (globalOffset s) + sint offset"
proof -
  have "sint (globalOffset s + offset) = sint (globalOffset s) + sint offset"
    using assms by (simp add: sint_word_ariths signed_take_bit_int_eq_self)
  then show ?thesis
    using assms(1) by (simp add: Seek_def SeekStart_def SeekCurrent_def word_sless_alt)
qed

text \<open>
  Claim C10. Whenever \<open>Seek\<close> fails, the offset it returns with the error is 0, whatever
  the cursor is, and the stream is unchanged: the returned value is not the cursor.
\<close>

theorem Seek_failure_returns_zero:
  "snd (snd (Seek s offset whence)) \<noteq> None \<Longrightarrow>
     fst (snd (Seek s offset whence)) = 0 \<and> fst (Seek s offset whence) = s"
  by (auto simp: Seek_def split: option.splits if_splits)

theorem Seek_failure_returns_zero_witness:
  "snd (snd (Seek (stream2\<lparr>globalOffset := 5\<rparr>) (- 7) SeekCurrent)) \<noteq> None \<and>
   fst (snd (Seek (stream2\<lparr>globalOffset := 5\<rparr>) (- 7) SeekCurrent)) = 0 \<and>
   globalOffset (fst (Seek (stream2\<lparr>globalOffset := 5\<rparr>) (- 7) SeekCurrent)) = 5"
proof -
  have f: "snd (snd (Seek (stream2\<lparr>globalOffset := 5\<rparr>) (- 7) SeekCurrent)) \<noteq> None"
    by (simp add: Seek_def SeekStart_def SeekCurrent_def word_sless_alt)
  show ?thesis
    using f Seek_failure_returns_zero [OF f] by simp
qed

section \<open>Frame of Read and ReadAt\<close>

text \<open>
  Claim C6. \<open>ReadAt\<close> leaves the stream as it is, cursor included. \<open>Read\<close> returns what
  \<open>ReadAt\<close> at the current cursor returns; when that is a success the cursor is advanced
  by exactly the byte count, and when it is an error (the end of the stream included)
  the stream is unchanged. No other field is touched by either.
\<close>

theorem ReadAt_Read_frame:
  "fst (ReadAt s p off) = s \<and>
   snd (Read s p) = snd (ReadAt s p (globalOffset s)) \<and>
   fst (Read s p) =
     (case snd (ReadAt s p (globalOffset s)) of
        Panic \<Rightarrow> s
      | Return r \<Rightarrow>
          (case rr_err r of
             Some e \<Rightarrow> s
           | None \<Rightarrow> s\<lparr>globalOffset := globalOffset s + of_nat (rr_n r)\<rparr>))"
  by (simp add: ReadAt_def Read_def split: outcome.splits option.splits)

theorem ReadAt_Read_frame_witness:
  "fst (ReadAt stream2 [0, 0] 1) = stream2 \<and>
   fst (Read stream2 [0, 0]) = stream2\<lparr>globalOffset := 2\<rparr> \<and>
   fst (Read (stream2\<lparr>globalOffset := 3\<rparr>) [0, 0]) = stream2\<lparr>globalOffset := 3\<rparr>"
proof -
  have a: "snd (ReadAt stream2 [0, 0] (globalOffset stream2)) =
             Return \<lparr>rr_n = 2, rr_err = None, rr_buf = [1, 2],
               rr_fetches = [\<lparr>f_input = \<lparr>Bucket = ''bk'', Key = ''a'', Range = (0, 1)\<rparr>,
                               f_lo = 0, f_hi = 2, f_m = 2\<rparr>]\<rparr>"
    by (simp add: eval_defs)
  have b: "rr_err (case snd (ReadAt (stream2\<lparr>globalOffset := 3\<rparr>) [0, 0]
                     (globalOffset (stream2\<lparr>globalOffset := 3\<rparr>))) of Return r \<Rightarrow> r)
             = Some EOF \<and>
           snd (ReadAt (stream2\<lparr>globalOffset := 3\<rparr>) [0, 0]
                     (globalOffset (stream2\<lparr>globalOffset := 3\<rparr>))) \<noteq> Panic"
    by (simp add: eval_defs)
  show ?thesis
    using ReadAt_Read_frame [of stream2 "[0, 0]" 1]
      ReadAt_Read_frame [of "stream2\<lparr>globalOffset := 3\<rparr>" "[0, 0]" 1] a b
    by (auto simp: stream2_def split: outcome.splits option.splits)
qed

section \<open>Construction\<close>

lemma New_loop_all_found:
  "\<forall>k \<in> set ks. discovered c b k \<noteq> None \<Longrightarrow>
     New_loop c b ks acc tr =
       (Return (Inr (acc @ map (new_object c b) ks)),
        tr @ map (\<lambda>k. \<lparr>HBucket = b, HKey = k\<rparr>) ks)"
proof (induction ks arbitrary: acc tr)
  case Nil
  then show ?case by simp
next
  case (Cons k ks)
  from Cons.prems obtain sz where sz: "discovered c b k = Some sz" by auto
  then obtain result where r: "HeadObject c \<lparr>HBucket = b, HKey = k\<rparr> = Inr result"
    "ContentLength result = Some sz"
    by (auto simp: discovered_def split: sum.splits)
  from Cons.prems have rest: "\<forall>k \<in> set ks. discovered c b k \<noteq> None" by simp
  show ?case
    using r sz by (simp add: Cons.IH [OF rest] new_object_def)
qed

lemma New_loop_first_error:
  "\<forall>k \<in> set pre. discovered c b k \<noteq> None \<Longrightarrow> lookup_error c b k = Some e \<Longrightarrow>
     New_loop c b (pre @ k # post) acc tr =
       (Return (Inl e), tr @ map (\<lambda>k. \<lparr>HBucket = b, HKey = k\<rparr>) (pre @ [k]))"
proof (induction pre arbitrary: acc tr)
  case Nil
  then show ?case by (auto simp: lookup_error_def split: sum.splits)
next
  case (Cons k' pre)
  from Cons.prems obtain sz where sz: "discovered c b k' = Some sz" by auto
  then obtain result where r: "HeadObject c \<lparr>HBucket = b, HKey = k'\<rparr> = Inr result"
    "ContentLength result = Some sz"
    by (auto simp: discovered_def split: sum.splits)
  from Cons.prems have rest: "\<forall>k \<in> set pre. discovered c b k \<noteq> None" by simp
  show ?case
    using r by (simp add: Cons.IH [OF rest Cons.prems(2)])
qed

text \<open>
  Claim C7. The construction looks the size of each key up once, in input order. If
  every lookup finds a size, the result is a stream with cursor 0 whose segments carry
  the keys and the discovered sizes in input order. If a lookup fails after the ones
  before it succeeded, the construction stops there: it returns that error and no
  stream, and no later key is looked up.
\<close>

theorem NewS3ReadSeeker_lookups:
  "((\<forall>k \<in> set keyGroup. discovered c b k \<noteq> None) \<longrightarrow>
      NewS3ReadSeeker c b keyGroup =
        (Return (Inr \<lparr>rs_client = c, rs_bucketName = b,
                      objectMembers = map (new_object c b) keyGroup, globalOffset = 0\<rparr>),
         map (\<lambda>k. \<lparr>HBucket = b, HKey = k\<rparr>) keyGroup)) \<and>
   ((\<forall>k' \<in> set pre. discovered c b k' \<noteq> None) \<and> lookup_error c b k = Some e \<longrightarrow>
      NewS3ReadSeeker c b (pre @ k # post) =
        (Return (Inl e), map (\<lambda>k. \<lparr>HBucket = b, HKey = k\<rparr>) (pre @ [k])))"
  by (simp add: NewS3ReadSeeker_def New_loop_all_found New_loop_first_error del: map_append)

lemma discovered_a: "discovered (mem_client store2) ''bk'' ''a'' = Some 2"
  by (simp add: discovered_def mem_client_def mem_HeadObject_def store2_def)

lemma discovered_b: "discovered (mem_client store2) ''bk'' ''b'' = Some 1"
  by (simp add: discovered_def mem_client_def mem_HeadObject_def store2_def)

lemma lookup_error_zz:
  "lookup_error (mem_client store2) ''bk'' ''zz'' = Some (ServiceError ''NotFound'')"
  by (simp add: lookup_error_def mem_client_def mem_HeadObject_def store2_def)

theorem NewS3ReadSeeker_lookups_witness:
  "NewS3ReadSeeker (mem_client store2) ''bk'' [''a'', ''b''] =
     (Return (Inr stream2),
      [\<lparr>HBucket = ''bk'', HKey = ''a''\<rparr>, \<lparr>HBucket = ''bk'', HKey = ''b''\<rparr>]) \<and>
   NewS3ReadSeeker (mem_client store2) ''bk'' [''a'', ''zz'', ''b''] =
     (Return (Inl (ServiceError ''NotFound'')),
      [\<lparr>HBucket = ''bk'', HKey = ''a''\<rparr>, \<lparr>HBucket = ''bk'', HKey = ''zz''\<rparr>])"
  using NewS3ReadSeeker_lookups [of "[''a'', ''b'']" "mem_client store2" "''bk''" "[''a'']" "''zz''"
      "ServiceError ''NotFound''" "[''b'']"]
  by (simp add: discovered_a discovered_b lookup_error_zz new_object_def stream2_def
      object_a_def object_b_def)

section \<open>The fetch of one segment\<close>





section \<open>ReadAt over a service that serves the segments\<close>

lemma serves_Object_ReadAt:
  assumes "serves obj d" "i \<le> j" "j \<le> length d" "length sub = j - i"
  shows "Object_ReadAt obj sub (of_nat i) =
           (j - i, None, take (j - i) (drop i d),
            \<lparr>Bucket = bucketName obj, Key = key obj, Range = (of_nat i, of_nat j - 1)\<rparr>)"
proof -
  have "(of_nat i :: int64) + of_nat (j - i) = of_nat j"
    using assms(2) by (simp flip: of_nat_add)
  then have w: "(of_nat i :: int64) + of_nat (j - i) - 1 = of_nat j - 1"
    by simp
  from assms obtain delivered fin where
    g: "GetObject (client obj)
          \<lparr>Bucket = bucketName obj, Key = key obj, Range = (of_nat i, of_nat j - 1)\<rparr>
          = Inr (delivered, fin)"
    and l: "j - i \<le> length delivered"
    and t: "take (j - i) delivered = take (j - i) (drop i d)"
    unfolding serves_def by blast
  show ?thesis
    using g l t assms(4) by (simp add: Object_ReadAt_def Let_def w ReadFull_def)
qed

lemma length_filled: "q \<le> length p \<Longrightarrow> length (filled ds o1 q p) = length p"
  by (induction ds o1 q p rule: filled.induct) auto

lemma ReadAt_loop_served:
  assumes "list_all2 serves objs ds" "q \<le> length p" "o1 < 2 ^ 63"
    "length (concat ds) + length p < 2 ^ 63"
  shows "ReadAt_loop objs p (of_nat o1) (of_nat q) n tr =
     Return \<lparr>rr_n = (if covers (map length ds) o1 (length p - q) then n + (length p - q) else 0),
             rr_err = (if covers (map length ds) o1 (length p - q) then None else Some EOF),
             rr_buf = filled ds o1 q p,
             rr_fetches = tr @ plan objs (map length ds) o1 q (length p)\<rparr>"
  using assms
proof (induction objs ds arbitrary: o1 q p n tr rule: list_all2_induct)
  case Nil
  then show ?case by simp
next
  case (Cons obj objs d ds)
  let ?sz = "length d"
  from Cons.hyps(1) have sz: "?sz < 2 ^ 63" and so: "size_o obj = of_nat ?sz"
    by (simp_all add: serves_def)
  from Cons.prems have lp: "length p < 2 ^ 63" and q63: "q < 2 ^ 63"
    and rest: "length (concat ds) + length p < 2 ^ 63" by simp_all
  show ?case
  proof (cases "?sz \<le> o1")
    case True
    have c: "size_o obj \<le>s of_nat o1" using True sz Cons.prems(2) by (simp add: so sle_of_nat64)
    have o': "o1 - ?sz < 2 ^ 63" using Cons.prems(2) by simp
    have w: "(of_nat o1 :: int64) - size_o obj = of_nat (o1 - ?sz)" using True by (simp add: so)
    show ?thesis
      using True c w Cons.IH [OF Cons.prems(1) o' rest, of n tr] by simp
  next
    case False
    then have olt: "o1 < ?sz" by simp
    have c: "\<not> size_o obj \<le>s of_nat o1" using False sz Cons.prems(2) by (simp add: so sle_of_nat64)
    have ok: "slice_ok p (of_nat q) (len64 p)"
      using Cons.prems(1) lp q63 by (simp add: slice_ok_def len64_def word_sle_eq sint_of_nat64)
    have sl: "slice p (of_nat q) (len64 p) = drop q p"
      using lp q63 by (simp add: slice_def len64_def nat_sint_of_nat64)
    have e1: "(of_nat o1 :: int64) + len64 (drop q p) - 1 + 1 = of_nat (o1 + (length p - q))"
      by (simp add: len64_def)
    have b: "o1 + (length p - q) < 2 ^ 63" using olt Cons.prems(3) by simp
    show ?thesis
    proof (cases "?sz < o1 + (length p - q)")
      case True
      have "size_o obj <s of_nat (o1 + (length p - q))"
        using True sz b by (simp add: so sless_of_nat64 del: of_nat_add)
      then have c2: "size_o obj <s of_nat o1 + len64 (drop q p) - 1 + 1"
        by (simp only: e1 simp_thms)
      let ?q' = "q + (?sz - o1)"
      have q'l: "?q' < length p" using True olt Cons.prems(1) by linarith
      then have q'63: "?q' < 2 ^ 63" using lp by linarith
      have np: "(of_nat q :: int64) + (size_o obj - of_nat o1) = of_nat ?q'"
        using olt by (simp add: so)
      have sq': "sint (of_nat ?q' :: int64) = int ?q'"
        using q'63 by (rule sint_of_nat64)
      have ok2: "slice_ok p (of_nat q) (of_nat ?q')"
        using q63 q'l unfolding slice_ok_def word_sle_eq sq' by (simp add: sint_of_nat64)
      have sl2: "slice p (of_nat q) (of_nat ?q') = take (?sz - o1) (drop q p)"
        using q63 unfolding slice_def sq' by (simp add: nat_sint_of_nat64 nat_add_distrib)
      have lsub: "length (take (?sz - o1) (drop q p)) = ?sz - o1"
        using q'l by simp
      have rd: "Object_ReadAt obj (take (?sz - o1) (drop q p)) (of_nat o1) =
                  (?sz - o1, None, drop o1 d,
                   \<lparr>Bucket = bucketName obj, Key = key obj, Range = (of_nat o1, of_nat ?sz - 1)\<rparr>)"
        using serves_Object_ReadAt [OF Cons.hyps(1) _ _ lsub] olt by simp
      let ?p' = "take q p @ drop o1 d @ drop ?q' p"
      have wb: "write_back p (of_nat q) (drop o1 d) = ?p'"
        using q63 by (simp add: write_back_def nat_sint_of_nat64)
      have lp': "length ?p' = length p" using q'l olt by simp
      have q'le: "?q' \<le> length ?p'" using q'l lp' by simp
      have rest': "length (concat ds) + length ?p' < 2 ^ 63" using rest lp' by simp
      have z: "(0::nat) < 2 ^ 63" by simp
      let ?f = "\<lparr>f_input = \<lparr>Bucket = bucketName obj, Key = key obj,
                            Range = (of_nat o1, of_nat ?sz - 1)\<rparr>,
                 f_lo = q, f_hi = ?q', f_m = ?sz - o1\<rparr>"
      have step: "ReadAt_loop (obj # objs) p (of_nat o1) (of_nat q) n tr =
                  ReadAt_loop objs ?p' 0 (of_nat ?q') (n + (?sz - o1)) (tr @ [?f])"
        by (simp only: ReadAt_loop.simps c ok c2 ok2 if_False if_True Let_def sl np simp_thms
            sl2 rd prod.case wb option.case nat_sint_of_nat64 [OF q63]
            nat_sint_of_nat64 [OF q'63])
      have ih: "ReadAt_loop objs ?p' 0 (of_nat ?q') (n + (?sz - o1)) (tr @ [?f]) =
          Return \<lparr>rr_n = (if covers (map length ds) 0 (length p - ?q')
                           then n + (?sz - o1) + (length p - ?q') else 0),
                  rr_err = (if covers (map length ds) 0 (length p - ?q') then None else Some EOF),
                  rr_buf = filled ds 0 ?q' ?p',
                  rr_fetches = (tr @ [?f]) @ plan objs (map length ds) 0 ?q' (length p)\<rparr>"
        using Cons.IH [OF q'le z rest', of "n + (?sz - o1)" "tr @ [?f]"] by (simp only: lp' semiring_1_class.of_nat_0)
      have ar: "length p - q - (?sz - o1) = length p - ?q'" by simp
      have r1: "covers (map length (d # ds)) o1 (length p - q) =
                  covers (map length ds) 0 (length p - ?q')"
        using True olt by (simp only: list.map covers.simps ar) simp
      have r2: "filled (d # ds) o1 q p = filled ds 0 ?q' ?p'"
        using True olt by (simp only: filled.simps) simp
      have r3: "plan (obj # objs) (map length (d # ds)) o1 q (length p) =
                  ?f # plan objs (map length ds) 0 ?q' (length p)"
        using True olt by (simp only: list.map plan.simps) simp
      have r4: "n + (?sz - o1) + (length p - ?q') = n + (length p - q)"
        using q'l olt by linarith
      show ?thesis
        unfolding step ih r1 r2 r3 r4 by simp
    next
      case False
      have "\<not> size_o obj <s of_nat (o1 + (length p - q))"
        using False sz b by (simp add: so sless_of_nat64 del: of_nat_add)
      then have c2: "\<not> size_o obj <s of_nat o1 + len64 (drop q p) - 1 + 1"
        by (simp only: e1 simp_thms)
      have lsub: "length (drop q p) = (o1 + (length p - q)) - o1" by simp
      have rd: "Object_ReadAt obj (drop q p) (of_nat o1) =
                  (length p - q, None, take (length p - q) (drop o1 d),
                   \<lparr>Bucket = bucketName obj, Key = key obj,
                     Range = (of_nat o1, of_nat (o1 + (length p - q)) - 1)\<rparr>)"
        using serves_Object_ReadAt [OF Cons.hyps(1) _ _ lsub] False by simp
      have lt: "length (take (length p - q) (drop o1 d)) = length p - q"
        using False by simp
      have wb: "write_back p (of_nat q) (take (length p - q) (drop o1 d)) =
                  take q p @ take (length p - q) (drop o1 d)"
        using q63 Cons.prems(1) by (simp add: write_back_def nat_sint_of_nat64 lt del: length_take)
      have step: "ReadAt_loop (obj # objs) p (of_nat o1) (of_nat q) n tr =
          Return \<lparr>rr_n = n + (length p - q), rr_err = None,
                  rr_buf = take q p @ take (length p - q) (drop o1 d),
                  rr_fetches = tr @ [\<lparr>f_input = \<lparr>Bucket = bucketName obj, Key = key obj,
                       Range = (of_nat o1, of_nat (o1 + (length p - q)) - 1)\<rparr>,
                     f_lo = q, f_hi = length p, f_m = length p - q\<rparr>]\<rparr>"
        by (simp only: ReadAt_loop.simps c ok c2 if_False if_True Let_def sl simp_thms rd
            prod.case wb option.case nat_sint_of_nat64 [OF q63])
      have r1: "covers (map length (d # ds)) o1 (length p - q)"
        using False olt by (simp only: list.map covers.simps) simp
      have r2: "filled (d # ds) o1 q p = take q p @ take (length p - q) (drop o1 d)"
        using False olt by (simp only: filled.simps) simp
      have r3: "plan (obj # objs) (map length (d # ds)) o1 q (length p) =
                  [\<lparr>f_input = \<lparr>Bucket = bucketName obj, Key = key obj,
                       Range = (of_nat o1, of_nat (o1 + (length p - q)) - 1)\<rparr>,
                     f_lo = q, f_hi = length p, f_m = length p - q\<rparr>]"
        using False olt by (simp only: list.map plan.simps) simp
      show ?thesis
        unfolding step r2 r3 by (simp only: r1 if_True)
    qed
  qed
qed


lemma covers_iff: "covers szs o1 r \<longleftrightarrow> o1 < sum_list szs \<and> o1 + r \<le> sum_list szs"
  by (induction szs o1 r rule: covers.induct) auto

lemma take_length_app: "length xs = n \<Longrightarrow> take n (xs @ ys) = xs"
  by simp

lemma drop_length_app: "length xs = n \<Longrightarrow> drop (n + k) (xs @ ys) = drop k ys"
  by simp

lemma filled_eq:
  "q \<le> length p \<Longrightarrow>
   filled ds o1 q p =
     take q p @ take (length p - q) (drop o1 (concat ds))
       @ drop (q + min (length p - q) (length (concat ds) - o1)) p"
proof (induction ds o1 q p rule: filled.induct)
  case (1 o1 q p)
  then show ?case by simp
next
  case (2 d ds o1 q p)
  show ?case
  proof (cases "length d \<le> o1")
    case True
    then show ?thesis using 2 by (simp add: add.commute)
  next
    case False
    note nle = False
    show ?thesis
    proof (cases "length d < o1 + (length p - q)")
      case True
      define m where "m = length d - o1"
      define q' where "q' = q + m"
      define p' where "p' = take q p @ drop o1 d @ drop q' p"
      have q'l: "q' < length p" using True nle "2.prems" unfolding q'_def m_def by linarith
      have lh: "length (take q p @ drop o1 d) = q'"
        using "2.prems" unfolding q'_def m_def by simp
      have "length p' = length (take q p @ drop o1 d) + length (drop q' p)"
        unfolding p'_def by simp
      then have lp': "length p' = length p"
        unfolding lh using q'l by simp
      have ih: "filled ds 0 q' p' =
          take q' p' @ take (length p' - q') (drop 0 (concat ds))
            @ drop (q' + min (length p' - q') (length (concat ds) - 0)) p'"
        using "2.IH"(2) [OF nle True] q'l lp' unfolding q'_def m_def p'_def by simp
      have pp: "p' = (take q p @ drop o1 d) @ drop q' p" unfolding p'_def by simp
      have t1: "take q' p' = take q p @ drop o1 d"
        unfolding pp by (rule take_length_app [OF lh])
      have t2: "drop (q' + k) p' = drop (q' + k) p" for k
        unfolding pp drop_length_app [OF lh] by (simp add: add.commute)
      have t3: "take (length p - q) (drop o1 (concat (d # ds))) =
                  drop o1 d @ take (length p - q') (concat ds)"
        using True nle unfolding q'_def m_def by simp
      have t4: "q + min (length p - q) (length (concat (d # ds)) - o1) =
                  q' + min (length p - q') (length (concat ds))"
      proof -
        have lc: "length (concat (d # ds)) = length d + length (concat ds)" by simp
        show ?thesis
          unfolding lc q'_def m_def using True nle "2.prems" by arith
      qed
      have "filled (d # ds) o1 q p = filled ds 0 q' p'"
        using True nle unfolding q'_def m_def p'_def by (simp only: filled.simps) simp
      also have "\<dots> = take q p @ drop o1 d @ take (length p - q') (concat ds)
            @ drop (q' + min (length p - q') (length (concat ds))) p"
        unfolding ih t1 lp' t2 by simp
      finally show ?thesis
        unfolding t3 t4 by simp
    next
      case False
      have lc: "length (concat (d # ds)) = length d + length (concat ds)" by simp
      have m: "min (length p - q) (length (concat (d # ds)) - o1) = length p - q"
        unfolding lc using False nle by arith
      have t: "take (length p - q) (drop o1 (concat (d # ds))) = take (length p - q) (drop o1 d)"
        using False nle by simp
      have "filled (d # ds) o1 q p = take q p @ take (length p - q) (drop o1 d)"
        using False nle by (simp only: filled.simps) simp
      then show ?thesis
        unfolding m t using "2.prems" by simp
    qed
  qed
qed

section \<open>The fetches of a read\<close>

lemma ends_shift: "ends szs b = map ((+) b) (ends szs 0)"
proof (induction szs arbitrary: b)
  case Nil
  then show ?case by simp
next
  case (Cons sz szs)
  have "ends szs (b + sz) = map ((+) (b + sz)) (ends szs 0)" by (rule Cons.IH)
  moreover have "ends szs (0 + sz) = map ((+) sz) (ends szs 0)" using Cons.IH [of sz] by simp
  ultimately show ?case by (simp add: add.assoc)
qed

lemma set_ends_Cons: "set (ends (sz # szs) 0) = insert sz ((+) sz ` set (ends szs 0))"
  using ends_shift [of szs sz] by simp

lemma plan_empty: "sum_list szs = 0 \<Longrightarrow> plan objs szs o1 q L = []"
  by (induction objs szs o1 q L rule: plan.induct) auto

lemma finite_crossed: "finite (crossed szs o1 r)"
  by (simp add: crossed_def)

lemma crossed_Cons:
  "crossed (sz # szs) o1 r =
     {c \<in> insert sz ((+) sz ` set (ends szs 0)). o1 < c \<and> c < o1 + r \<and> c < sz + sum_list szs}"
  unfolding crossed_def set_ends_Cons by simp

lemma crossed_skip:
  assumes "sz \<le> o1"
  shows "crossed (sz # szs) o1 r = (+) sz ` crossed szs (o1 - sz) r"
proof -
  define E T where "E = set (ends szs 0)" and "T = sum_list szs"
  have "{c \<in> insert sz ((+) sz ` E). o1 < c \<and> c < o1 + r \<and> c < sz + T} =
        (+) sz ` {c \<in> E. o1 - sz < c \<and> c < o1 - sz + r \<and> c < T}"
    using assms by (auto simp: image_iff)
  then show ?thesis
    unfolding E_def T_def crossed_Cons unfolding crossed_def .
qed

lemma crossed_partial:
  assumes "o1 < sz" "sz < o1 + r" "0 < sum_list szs"
  shows "crossed (sz # szs) o1 r = insert sz ((+) sz ` crossed szs 0 (r - (sz - o1)))"
proof -
  define E T where "E = set (ends szs 0)" and "T = sum_list szs"
  have "0 < T" using assms(3) unfolding T_def .
  then have "{c \<in> insert sz ((+) sz ` E). o1 < c \<and> c < o1 + r \<and> c < sz + T} =
        insert sz ((+) sz ` {c \<in> E. 0 < c \<and> c < 0 + (r - (sz - o1)) \<and> c < T})"
    using assms(1,2) by (auto simp: image_iff)
  then show ?thesis
    unfolding E_def T_def crossed_Cons unfolding crossed_def .
qed

lemma crossed_partial_end:
  assumes "o1 < sz" "sum_list szs = 0"
  shows "crossed (sz # szs) o1 r = {}"
proof -
  define E where "E = set (ends szs 0)"
  have "{c \<in> insert sz ((+) sz ` E). o1 < c \<and> c < o1 + r \<and> c < sz + 0} = {}"
    by auto
  then show ?thesis
    unfolding E_def crossed_Cons assms(2) .
qed

lemma crossed_last:
  assumes "o1 < sz" "\<not> sz < o1 + r"
  shows "crossed (sz # szs) o1 r = {}"
proof -
  define E T where "E = set (ends szs 0)" and "T = sum_list szs"
  have "{c \<in> insert sz ((+) sz ` E). o1 < c \<and> c < o1 + r \<and> c < sz + T} = {}"
    using assms by auto
  then show ?thesis
    unfolding E_def T_def crossed_Cons .
qed

lemma card_shift: "card ((+) (k::nat) ` A) = card A"
  by (rule card_image) simp

lemma length_plan:
  "length objs = length szs \<Longrightarrow> o1 < sum_list szs \<Longrightarrow>
     length (plan objs szs o1 q L) = Suc (card (crossed szs o1 (L - q)))"
proof (induction objs szs o1 q L rule: plan.induct)
  case (1 obj objs sz szs o1 q L)
  have len: "length objs = length szs" using "1.prems"(1) by simp
  have tot: "o1 < sz + sum_list szs" using "1.prems"(2) by simp
  show ?case
  proof (cases "sz \<le> o1")
    case True
    have p: "plan (obj # objs) (sz # szs) o1 q L = plan objs szs (o1 - sz) q L"
      by (simp only: plan.simps True if_True)
    have o': "o1 - sz < sum_list szs" using True tot by linarith
    show ?thesis
      unfolding p crossed_skip [OF True] card_shift by (rule "1.IH"(1) [OF True len o'])
  next
    case False
    note nle = False
    then have olt: "o1 < sz" by simp
    show ?thesis
    proof (cases "sz < o1 + (L - q)")
      case True
      define f where "f = \<lparr>f_input = \<lparr>Bucket = bucketName obj, Key = key obj,
                               Range = (of_nat o1, of_nat sz - 1)\<rparr>,
                 f_lo = q, f_hi = q + (sz - o1), f_m = sz - o1\<rparr>"
      have p: "plan (obj # objs) (sz # szs) o1 q L = f # plan objs szs 0 (q + (sz - o1)) L"
        unfolding f_def by (simp only: plan.simps nle True if_False if_True)
      show ?thesis
      proof (cases "sum_list szs = 0")
        case True
        have "plan objs szs 0 (q + (sz - o1)) L = []" using True by (rule plan_empty)
        then show ?thesis
          unfolding p crossed_partial_end [OF olt True] by simp
      next
        case False
        then have pos: "0 < sum_list szs" by arith
        have r: "L - (q + (sz - o1)) = L - q - (sz - o1)" by simp
        have ih: "length (plan objs szs 0 (q + (sz - o1)) L) =
                    Suc (card (crossed szs 0 (L - q - (sz - o1))))"
          using "1.IH"(2) [OF nle True len pos] unfolding r .
        have ni: "sz \<notin> (+) sz ` crossed szs 0 (L - q - (sz - o1))"
          by (auto simp: crossed_def)
        have fin: "finite ((+) sz ` crossed szs 0 (L - q - (sz - o1)))"
          by (simp add: finite_crossed)
        have "card (insert sz ((+) sz ` crossed szs 0 (L - q - (sz - o1)))) =
                Suc (card ((+) sz ` crossed szs 0 (L - q - (sz - o1))))"
          using card_insert_disjoint [OF fin ni] .
        then show ?thesis
          unfolding p crossed_partial [OF olt True pos] card_shift using ih by simp
      qed
    next
      case False
      have p: "length (plan (obj # objs) (sz # szs) o1 q L) = 1"
        by (simp only: plan.simps nle False if_False if_True) simp
      show ?thesis
        unfolding p crossed_last [OF olt False] by simp
    qed
  qed
qed simp_all

lemma plan_in_order:
  "\<exists>objs'. subseq objs' objs \<and>
     map (\<lambda>f. (Bucket (f_input f), Key (f_input f))) (plan objs szs o1 q L) =
     map (\<lambda>obj. (bucketName obj, key obj)) objs'"
proof (induction objs szs o1 q L rule: plan.induct)
  case (1 obj objs sz szs o1 q L)
  show ?case
  proof (cases "sz \<le> o1")
    case True
    then obtain objs' where "subseq objs' objs"
      "map (\<lambda>f. (Bucket (f_input f), Key (f_input f))) (plan objs szs (o1 - sz) q L) =
       map (\<lambda>obj. (bucketName obj, key obj)) objs'"
      using "1.IH"(1) by blast
    then show ?thesis
      using True by (intro exI [of _ objs']) (simp add: list_emb_Cons)
  next
    case False
    note nle = False
    show ?thesis
    proof (cases "sz < o1 + (L - q)")
      case True
      then obtain objs' where "subseq objs' objs"
        "map (\<lambda>f. (Bucket (f_input f), Key (f_input f))) (plan objs szs 0 (q + (sz - o1)) L) =
         map (\<lambda>obj. (bucketName obj, key obj)) objs'"
        using "1.IH"(2) nle by blast
      then show ?thesis
        using True nle by (intro exI [of _ "obj # objs'"]) simp
    next
      case False
      then show ?thesis
        using nle by (intro exI [of _ "[obj]"]) simp
    qed
  qed
qed (auto intro: exI [of _ "[]"])

lemma plan_exact:
  "f \<in> set (plan objs szs o1 q L) \<Longrightarrow> q \<le> L \<Longrightarrow>
     f_m f = f_hi f - f_lo f \<and> f_lo f \<le> f_hi f"
  by (induction objs szs o1 q L rule: plan.induct) (auto split: if_splits)

lemma plan_tiles:
  "length objs = length szs \<Longrightarrow> q \<le> L \<Longrightarrow>
     concat (map (\<lambda>f. [f_lo f..<f_hi f]) (plan objs szs o1 q L)) =
       [q..<q + min (L - q) (sum_list szs - o1)]"
proof (induction objs szs o1 q L rule: plan.induct)
  case (1 obj objs sz szs o1 q L)
  have len: "length objs = length szs" using "1.prems"(1) by simp
  have qL: "q \<le> L" using "1.prems"(2) .
  show ?case
  proof (cases "sz \<le> o1")
    case True
    have e: "sum_list (sz # szs) - o1 = sum_list szs - (o1 - sz)" using True by simp
    have "plan (obj # objs) (sz # szs) o1 q L = plan objs szs (o1 - sz) q L"
      by (simp only: plan.simps True if_True)
    then show ?thesis
      unfolding e using "1.IH"(1) [OF True len qL] by simp
  next
    case False
    note nle = False
    show ?thesis
    proof (cases "sz < o1 + (L - q)")
      case True
      define q' where "q' = q + (sz - o1)"
      have q'L: "q' \<le> L" "q \<le> q'" using True nle qL unfolding q'_def by linarith+
      have ih: "concat (map (\<lambda>f. [f_lo f..<f_hi f]) (plan objs szs 0 q' L)) =
                  [q'..<q' + min (L - q') (sum_list szs - 0)]"
        using "1.IH"(2) [OF nle True len] q'L unfolding q'_def by simp
      have e: "q + min (L - q) (sum_list (sz # szs) - o1) = q' + min (L - q') (sum_list szs)"
      proof -
        have "sum_list (sz # szs) = sz + sum_list szs" by simp
        then show ?thesis
          unfolding q'_def using True nle qL by arith
      qed
      have "concat (map (\<lambda>f. [f_lo f..<f_hi f]) (plan (obj # objs) (sz # szs) o1 q L)) =
              [q..<q'] @ concat (map (\<lambda>f. [f_lo f..<f_hi f]) (plan objs szs 0 q' L))"
        unfolding q'_def by (simp only: plan.simps nle True if_False if_True) simp
      also have "\<dots> = [q..<q'] @ [q'..<q' + min (L - q') (sum_list szs)]"
        unfolding ih by simp
      also have "\<dots> = [q..<q' + min (L - q') (sum_list szs)]"
        using upt_add_eq_append [OF q'L(2), of "min (L - q') (sum_list szs)"] by simp
      finally show ?thesis unfolding e .
    next
      case False
      have "sum_list (sz # szs) = sz + sum_list szs" by simp
      then have m: "q + min (L - q) (sum_list (sz # szs) - o1) = L"
        using False nle qL by arith
      have "plan (obj # objs) (sz # szs) o1 q L =
          [\<lparr>f_input = \<lparr>Bucket = bucketName obj, Key = key obj,
                     Range = (of_nat o1, of_nat (o1 + (L - q)) - 1)\<rparr>,
          f_lo = q, f_hi = L, f_m = L - q\<rparr>]"
        by (simp only: plan.simps nle False if_False)
      then show ?thesis
        unfolding m by simp
    qed
  qed
qed simp_all

text \<open>Every planned fetch asks one segment for a range of its contents, and these bytes
  stand in its slice of the final buffer.\<close>

lemma take_filled_prefix: "q \<le> length p \<Longrightarrow> take q (filled ds o1 q p) = take q p"
proof -
  assume q: "q \<le> length p"
  have l: "length (take q p) = q" using q by simp
  show ?thesis
    unfolding filled_eq [OF q] by (rule take_length_app [OF l])
qed

lemma plan_fetch_data:
  assumes "length objs = length ds" "q \<le> length p"
    "f \<in> set (plan objs (map length ds) o1 q (length p))"
  shows "\<exists>i lo. i < length objs \<and>
           f_input f = \<lparr>Bucket = bucketName (objs ! i), Key = key (objs ! i),
                        Range = (of_nat lo, of_nat (lo + f_m f) - 1)\<rparr> \<and>
           lo + f_m f \<le> length (ds ! i) \<and>
           f_m f = f_hi f - f_lo f \<and> f_lo f \<le> f_hi f \<and> f_hi f \<le> length p \<and>
           take (f_m f) (drop (f_lo f) (filled ds o1 q p)) = take (f_m f) (drop lo (ds ! i))"
  using assms
proof (induction objs arbitrary: ds o1 q p)
  case Nil
  then show ?case by simp
next
  case (Cons obj objs)
  then obtain d ds' where ds: "ds = d # ds'" by (cases ds) auto
  have len: "length objs = length ds'" using Cons.prems(1) ds by simp
  let ?sz = "length d"
  show ?case
  proof (cases "?sz \<le> o1")
    case True
    have p: "plan (obj # objs) (map length ds) o1 q (length p) =
             plan objs (map length ds') (o1 - ?sz) q (length p)"
      unfolding ds by (simp only: list.map plan.simps True if_True)
    have fl: "filled ds o1 q p = filled ds' (o1 - ?sz) q p"
      unfolding ds by (simp only: filled.simps True if_True)
    from Cons.IH [OF len Cons.prems(2) Cons.prems(3) [unfolded p]]
    obtain i lo where h: "i < length objs"
      "f_input f = \<lparr>Bucket = bucketName (objs ! i), Key = key (objs ! i),
                        Range = (of_nat lo, of_nat (lo + f_m f) - 1)\<rparr>"
      "lo + f_m f \<le> length (ds' ! i)"
      "f_m f = f_hi f - f_lo f" "f_lo f \<le> f_hi f" "f_hi f \<le> length p"
      "take (f_m f) (drop (f_lo f) (filled ds' (o1 - ?sz) q p)) = take (f_m f) (drop lo (ds' ! i))"
      by blast
    have "Suc i < length (obj # objs) \<and>
           f_input f = \<lparr>Bucket = bucketName ((obj # objs) ! Suc i),
                        Key = key ((obj # objs) ! Suc i),
                        Range = (of_nat lo, of_nat (lo + f_m f) - 1)\<rparr> \<and>
           lo + f_m f \<le> length (ds ! Suc i) \<and>
           f_m f = f_hi f - f_lo f \<and> f_lo f \<le> f_hi f \<and> f_hi f \<le> length p \<and>
           take (f_m f) (drop (f_lo f) (filled ds o1 q p)) = take (f_m f) (drop lo (ds ! Suc i))"
      unfolding fl unfolding ds nth_Cons_Suc using h by (simp only: length_Cons Suc_less_eq simp_thms)
    then show ?thesis by blast
  next
    case False
    note nle = False
    then have olt: "o1 < ?sz" by simp
    show ?thesis
    proof (cases "?sz < o1 + (length p - q)")
      case True
      define q' where "q' = q + (?sz - o1)"
      define p' where "p' = take q p @ drop o1 d @ drop q' p"
      define f0 where "f0 = \<lparr>f_input = \<lparr>Bucket = bucketName obj, Key = key obj,
                               Range = (of_nat o1, of_nat ?sz - 1)\<rparr>,
                 f_lo = q, f_hi = q', f_m = ?sz - o1\<rparr>"
      have q'l: "q' < length p" using True olt Cons.prems(2) unfolding q'_def by linarith
      have lh: "length (take q p @ drop o1 d) = q'"
        using Cons.prems(2) unfolding q'_def by simp
      have "length p' = length (take q p @ drop o1 d) + length (drop q' p)"
        unfolding p'_def by simp
      then have lp': "length p' = length p" unfolding lh using q'l by simp
      have q'le: "q' \<le> length p'" using q'l lp' by simp
      have p: "plan (obj # objs) (map length ds) o1 q (length p) =
               f0 # plan objs (map length ds') 0 q' (length p')"
        unfolding ds f0_def q'_def [symmetric] lp'
        by (simp only: list.map plan.simps nle True if_False if_True q'_def)
      have fl: "filled ds o1 q p = filled ds' 0 q' p'"
        unfolding ds p'_def q'_def by (simp only: filled.simps nle True if_False if_True)
      show ?thesis
      proof (cases "f = f0")
        case True
        have pp: "p' = (take q p @ drop o1 d) @ drop q' p" unfolding p'_def by simp
        have "take q' p' = take q p @ drop o1 d"
          unfolding pp by (rule take_length_app [OF lh])
        then have pre: "take q' (filled ds' 0 q' p') = take q p @ drop o1 d"
          unfolding take_filled_prefix [OF q'le] .
        have lq: "length (take q p) = q" using Cons.prems(2) by simp
        have "take (?sz - o1) (drop q (filled ds' 0 q' p')) =
                drop q (take q' (filled ds' 0 q' p'))"
          unfolding q'_def by (simp add: drop_take)
        also have "\<dots> = drop o1 d"
          unfolding pre using lq by simp
        finally have data: "take (?sz - o1) (drop q (filled ds' 0 q' p')) =
                       take (?sz - o1) (drop o1 d)" by simp
        have rg: "o1 + (?sz - o1) = ?sz" using olt by simp
        have "0 < length (obj # objs) \<and>
           f_input f0 = \<lparr>Bucket = bucketName ((obj # objs) ! 0), Key = key ((obj # objs) ! 0),
                        Range = (of_nat o1, of_nat (o1 + f_m f0) - 1)\<rparr> \<and>
           o1 + f_m f0 \<le> length (ds ! 0) \<and>
           f_m f0 = f_hi f0 - f_lo f0 \<and> f_lo f0 \<le> f_hi f0 \<and> f_hi f0 \<le> length p \<and>
           take (f_m f0) (drop (f_lo f0) (filled ds o1 q p)) = take (f_m f0) (drop o1 (ds ! 0))"
          unfolding fl unfolding ds f0_def using data q'l
          by (simp add: rg del: of_nat_add) (simp add: q'_def)
        then show ?thesis unfolding True by blast
      next
        case False
        then have "f \<in> set (plan objs (map length ds') 0 q' (length p'))"
          using Cons.prems(3) unfolding p by simp
        from Cons.IH [OF len q'le this]
        obtain i lo where h: "i < length objs"
          "f_input f = \<lparr>Bucket = bucketName (objs ! i), Key = key (objs ! i),
                        Range = (of_nat lo, of_nat (lo + f_m f) - 1)\<rparr>"
          "lo + f_m f \<le> length (ds' ! i)"
          "f_m f = f_hi f - f_lo f" "f_lo f \<le> f_hi f" "f_hi f \<le> length p'"
          "take (f_m f) (drop (f_lo f) (filled ds' 0 q' p')) = take (f_m f) (drop lo (ds' ! i))"
          by blast
        have "Suc i < length (obj # objs) \<and>
           f_input f = \<lparr>Bucket = bucketName ((obj # objs) ! Suc i),
                        Key = key ((obj # objs) ! Suc i),
                        Range = (of_nat lo, of_nat (lo + f_m f) - 1)\<rparr> \<and>
           lo + f_m f \<le> length (ds ! Suc i) \<and>
           f_m f = f_hi f - f_lo f \<and> f_lo f \<le> f_hi f \<and> f_hi f \<le> length p \<and>
           take (f_m f) (drop (f_lo f) (filled ds o1 q p)) = take (f_m f) (drop lo (ds ! Suc i))"
          unfolding fl unfolding ds nth_Cons_Suc using h [unfolded lp']
          by (simp only: length_Cons Suc_less_eq simp_thms)
        then show ?thesis by blast
      qed
    next
      case False
      have p: "plan (obj # objs) (map length ds) o1 q (length p) =
          [\<lparr>f_input = \<lparr>Bucket = bucketName obj, Key = key obj,
                     Range = (of_nat o1, of_nat (o1 + (length p - q)) - 1)\<rparr>,
            f_lo = q, f_hi = length p, f_m = length p - q\<rparr>]"
        unfolding ds by (simp only: list.map plan.simps nle False if_False)
      have fl: "filled ds o1 q p = take q p @ take (length p - q) (drop o1 d)"
        unfolding ds by (simp only: filled.simps nle False if_False)
      have f: "f = \<lparr>f_input = \<lparr>Bucket = bucketName obj, Key = key obj,
                     Range = (of_nat o1, of_nat (o1 + (length p - q)) - 1)\<rparr>,
            f_lo = q, f_hi = length p, f_m = length p - q\<rparr>"
        using Cons.prems(3) unfolding p by simp
      have lq: "length (take q p) = q" using Cons.prems(2) by simp
      have data: "drop q (take q p @ take (length p - q) (drop o1 d)) =
                    take (length p - q) (drop o1 d)"
        using lq by simp
      have fit: "o1 + (length p - q) \<le> ?sz" using False by simp
      have "0 < length (obj # objs) \<and>
           f_input f = \<lparr>Bucket = bucketName ((obj # objs) ! 0), Key = key ((obj # objs) ! 0),
                        Range = (of_nat o1, of_nat (o1 + f_m f) - 1)\<rparr> \<and>
           o1 + f_m f \<le> length (ds ! 0) \<and>
           f_m f = f_hi f - f_lo f \<and> f_lo f \<le> f_hi f \<and> f_hi f \<le> length p \<and>
           take (f_m f) (drop (f_lo f) (filled ds o1 q p)) = take (f_m f) (drop o1 (ds ! 0))"
        unfolding fl unfolding f ds using data fit Cons.prems(2)
        by (simp del: of_nat_add)
      then show ?thesis by blast
    qed
  qed
qed

section \<open>Reads against the flat byte array\<close>

lemma serves_size: "serves obj d \<Longrightarrow> nat (sint (size_o obj)) = length d"
  by (simp add: serves_def nat_sint_of_nat64)

lemma serves_sizes:
  "list_all2 serves objs ds \<Longrightarrow> map (\<lambda>obj. nat (sint (size_o obj))) objs = map length ds"
  by (induction rule: list_all2_induct) (simp_all add: serves_size)

lemma served_seg_sizes: "list_all2 serves (objectMembers s) ds \<Longrightarrow> seg_sizes s = map length ds"
  unfolding seg_sizes_def by (rule serves_sizes)

lemma served_total_size:
  "list_all2 serves (objectMembers s) ds \<Longrightarrow> total_size s = length (concat ds)"
  unfolding total_size_def by (simp add: served_seg_sizes length_concat)

lemma ReadAt_served:
  assumes sv: "list_all2 serves (objectMembers s) ds" and g: "g < 2 ^ 63"
    and b: "length (concat ds) + length p < 2 ^ 63"
  shows "snd (ReadAt s p (of_nat g)) =
     Return \<lparr>rr_n = (if g < length (concat ds) \<and> g + length p \<le> length (concat ds)
                      then length p else 0),
             rr_err = (if g < length (concat ds) \<and> g + length p \<le> length (concat ds)
                       then None else Some EOF),
             rr_buf = take (length p) (drop g (concat ds))
                        @ drop (min (length p) (length (concat ds) - g)) p,
             rr_fetches = plan (objectMembers s) (map length ds) g 0 (length p)\<rparr>"
proof -
  have z: "(0::nat) \<le> length p" by simp
  have "ReadAt_loop (objectMembers s) p (of_nat g) (of_nat 0) 0 [] =
     Return \<lparr>rr_n = (if covers (map length ds) g (length p - 0) then 0 + (length p - 0) else 0),
             rr_err = (if covers (map length ds) g (length p - 0) then None else Some EOF),
             rr_buf = filled ds g 0 p,
             rr_fetches = [] @ plan (objectMembers s) (map length ds) g 0 (length p)\<rparr>"
    by (rule ReadAt_loop_served [OF sv z g b])
  then show ?thesis
    by (simp add: ReadAt_def covers_iff filled_eq length_concat)
qed

lemma of_nat_nat_sint64: "0 \<le>s (x :: int64) \<Longrightarrow> of_nat (nat (sint x)) = x"
  by (simp add: word_sle_eq)

lemma nat_sint_bound64: "nat (sint (x :: int64)) < 2 ^ 63"
  using sint_lt [of x] by simp

lemma take_thrice:
  "take a xs @ take b (drop a xs) @ take c (drop (a + b) xs) = take (a + b + c) xs"
proof -
  have "take (a + b + c) xs = take (a + b) xs @ take c (drop (a + b) xs)"
    by (rule take_add)
  also have "take (a + b) xs = take a xs @ take b (drop a xs)"
    by (rule take_add)
  finally show ?thesis by simp
qed

lemma Read_served:
  assumes sv: "list_all2 serves (objectMembers s) ds" and c: "globalOffset s = of_nat g"
    and fit: "g + length p \<le> length (concat ds)"
    and b: "length (concat ds) + length p < 2 ^ 63"
  shows "\<exists>r. Read s p = (s\<lparr>globalOffset := of_nat (g + length p)\<rparr>, Return r) \<and>
             got r = take (length p) (drop g (concat ds)) \<and>
             rr_buf r = take (length p) (drop g (concat ds))"
proof -
  have g: "g < 2 ^ 63" using fit b by linarith
  note ra = ReadAt_served [OF sv g b]
  show ?thesis
  proof (cases "g < length (concat ds)")
    case True
    have l: "length (take (length p) (drop g (concat ds))) = length p" using fit by simp
    show ?thesis
      using ra True fit l
      by (simp add: Read_def ReadAt_def c got_def del: length_take)
  next
    case False
    then have "length p = 0 \<and> g = length (concat ds)" using fit by linarith
    then have "p = []" "g = length (concat ds)" by simp_all
    then show ?thesis
      using ra c by (simp add: Read_def ReadAt_def got_def)
  qed
qed

lemma mem_serves:
  assumes "map_of store k = Some d" "length d < 2 ^ 63"
  shows "serves \<lparr>client = mem_client store, bucketName = b, key = k,
                  size_o = of_nat (length d), offset_o = z\<rparr> d"
proof -
  have "\<exists>delivered fin.
           mem_GetObject store \<lparr>Bucket = b, Key = k, Range = (of_nat i, of_nat j - 1)\<rparr>
             = Inr (delivered, fin) \<and>
           j - i \<le> length delivered \<and>
           take (j - i) delivered = take (j - i) (drop i d)"
    if ij: "i \<le> j" "j \<le> length d" for i j
  proof (cases "i = j")
    case True
    have i63: "i < 2 ^ 63" using ij assms(2) by linarith
    have "(of_nat i - 1 :: int64) <s of_nat i"
    proof (cases i)
      case 0
      then show ?thesis by (simp add: word_sless_alt)
    next
      case (Suc n)
      then have "(of_nat i - 1 :: int64) = of_nat n" by simp
      moreover have "n < 2 ^ 63" using Suc i63 by simp
      ultimately show ?thesis using i63 Suc by (simp only: sless_of_nat64)
    qed
    then show ?thesis
      using True assms(1) by (simp add: mem_GetObject_def)
  next
    case False
    then obtain n where n: "j = Suc n" "i \<le> n" using ij(1) by (cases j) auto
    have b: "i < 2 ^ 63" "n < 2 ^ 63" "i < length d" using n ij assms(2) by linarith+
    have h: "(of_nat j - 1 :: int64) = of_nat n" using n by simp
    have c1: "\<not> (of_nat n :: int64) <s of_nat i" using b n by (simp add: sless_of_nat64)
    have c2: "\<not> (of_nat i :: int64) <s 0" using b by (simp add: word_sless_alt sint_of_nat64)
    have c3: "\<not> int (length d) \<le> sint (of_nat i :: int64)" using b by (simp add: sint_of_nat64)
    have t: "nat (sint (of_nat n :: int64)) = n" using b by (simp add: nat_sint_of_nat64)
    have di: "nat (sint (of_nat i :: int64)) = i" using b by (simp add: nat_sint_of_nat64)
    show ?thesis
      unfolding h using assms(1) c1 c2 c3 ij n
      by (simp add: mem_GetObject_def t di del: of_nat_Suc)
  qed
  then show ?thesis
    using assms(2) by (simp add: serves_def mem_client_def)
qed

lemma stream2_served: "list_all2 serves (objectMembers stream2) [[1, 2], [3]]"
proof -
  have a: "serves object_a [1, 2]"
    using mem_serves [of store2 "''a''" "[1, 2]" "''bk''" 0]
    by (simp add: store2_def object_a_def)
  have b: "serves object_b [3]"
    using mem_serves [of store2 "''b''" "[3]" "''bk''" 0]
    by (simp add: store2_def object_b_def)
  show ?thesis using a b by (simp add: stream2_def)
qed

text \<open>
  Claim C5. Over a service that serves the segments, with the total size within the
  range of \<^verbatim>\<open>int64\<close>: three \<open>Read\<close> calls from cursor 0 with buffers of sizes \<open>a\<close>,
  \<open>b\<close> and \<open>c\<close>, where \<open>a + b + c\<close> does not exceed the total size, return,
  concatenated, the bytes that one \<open>ReadAt\<close> at offset 0 with a buffer of size
  \<open>a + b + c\<close> returns, and leave the cursor at \<open>a + b + c\<close>.
\<close>

theorem Read_thrice_is_ReadAt:
  assumes sv: "list_all2 serves (objectMembers s) ds" and c: "globalOffset s = 0"
    and fit: "length p1 + length p2 + length p3 \<le> length (concat ds)"
    and b: "length (concat ds) + (length p1 + length p2 + length p3) < 2 ^ 63"
    and lp: "length p = length p1 + length p2 + length p3"
  shows "\<exists>s1 r1 s2 r2 s3 r3 r.
           Read s p1 = (s1, Return r1) \<and> Read s1 p2 = (s2, Return r2) \<and>
           Read s2 p3 = (s3, Return r3) \<and> snd (ReadAt s p 0) = Return r \<and>
           got r1 @ got r2 @ got r3 = got r \<and>
           rr_buf r1 @ rr_buf r2 @ rr_buf r3 = rr_buf r \<and>
           globalOffset s3 = of_nat (length p1 + length p2 + length p3)"
proof -
  let ?flat = "concat ds"
  have c0: "globalOffset s = of_nat 0" using c by simp
  have f1: "0 + length p1 \<le> length ?flat" using fit by simp
  have b1: "length ?flat + length p1 < 2 ^ 63" using b by simp
  obtain r1 where r1: "Read s p1 = (s\<lparr>globalOffset := of_nat (0 + length p1)\<rparr>, Return r1)"
    "got r1 = take (length p1) (drop 0 ?flat)" "rr_buf r1 = take (length p1) (drop 0 ?flat)"
    using Read_served [OF sv c0 f1 b1] by blast
  let ?s1 = "s\<lparr>globalOffset := of_nat (0 + length p1)\<rparr>"
  have sv1: "list_all2 serves (objectMembers ?s1) ds" using sv by simp
  have c1: "globalOffset ?s1 = of_nat (length p1)" by simp
  have f2: "length p1 + length p2 \<le> length ?flat" using fit by simp
  have b2: "length ?flat + length p2 < 2 ^ 63" using b by simp
  obtain r2 where r2: "Read ?s1 p2 = (?s1\<lparr>globalOffset := of_nat (length p1 + length p2)\<rparr>, Return r2)"
    "got r2 = take (length p2) (drop (length p1) ?flat)"
    "rr_buf r2 = take (length p2) (drop (length p1) ?flat)"
    using Read_served [OF sv1 c1 f2 b2] by blast
  let ?s2 = "?s1\<lparr>globalOffset := of_nat (length p1 + length p2)\<rparr>"
  have sv2: "list_all2 serves (objectMembers ?s2) ds" using sv by simp
  have c2: "globalOffset ?s2 = of_nat (length p1 + length p2)" by simp
  have f3: "length p1 + length p2 + length p3 \<le> length ?flat" using fit by simp
  have b3: "length ?flat + length p3 < 2 ^ 63" using b by simp
  obtain r3 where r3:
    "Read ?s2 p3 = (?s2\<lparr>globalOffset := of_nat (length p1 + length p2 + length p3)\<rparr>, Return r3)"
    "got r3 = take (length p3) (drop (length p1 + length p2) ?flat)"
    "rr_buf r3 = take (length p3) (drop (length p1 + length p2) ?flat)"
    using Read_served [OF sv2 c2 f3 b3] by blast
  have bp: "length ?flat + length p < 2 ^ 63" using b lp by simp
  have z: "(0::nat) < 2 ^ 63" by simp
  have fp: "length p \<le> length ?flat" using fit lp by simp
  define r where "r = \<lparr>rr_n = (if 0 < length ?flat \<and> 0 + length p \<le> length ?flat
                      then length p else 0),
             rr_err = (if 0 < length ?flat \<and> 0 + length p \<le> length ?flat
                       then None else Some EOF),
             rr_buf = take (length p) (drop 0 ?flat)
                        @ drop (min (length p) (length ?flat - 0)) p,
             rr_fetches = plan (objectMembers s) (map length ds) 0 0 (length p)\<rparr>"
  have ra: "snd (ReadAt s p 0) = Return r"
    using ReadAt_served [OF sv z bp] unfolding r_def by simp
  have rb: "rr_buf r = take (length p) ?flat"
    unfolding r_def using fp by (simp add: min_def)
  have rg: "got r = take (length p) ?flat"
  proof (cases "0 < length ?flat")
    case True
    then show ?thesis unfolding got_def rb using fp by (simp add: r_def)
  next
    case False
    then have "length p = 0" using fp by linarith
    then show ?thesis unfolding got_def rb by simp
  qed
  have split3: "take (length p1) ?flat @ take (length p2) (drop (length p1) ?flat)
      @ take (length p3) (drop (length p1 + length p2) ?flat) = take (length p) ?flat"
    unfolding lp by (rule take_thrice)
  show ?thesis
    using r1 r2 r3 ra rb rg split3
    by (intro exI [of _ ?s1] exI [of _ r1] exI [of _ ?s2] exI [of _ r2]
        exI [of _ "?s2\<lparr>globalOffset := of_nat (length p1 + length p2 + length p3)\<rparr>"]
        exI [of _ r3] exI [of _ r]) simp
qed

theorem Read_thrice_is_ReadAt_witness:
  "globalOffset stream2 = 0 \<and>
   length [0 :: byte] + length [0 :: byte] + length [0 :: byte] \<le> length (concat [[1, 2], [3 :: byte]]) \<and>
   (\<exists>s1 r1 s2 r2 s3 r3 r.
           Read stream2 [0] = (s1, Return r1) \<and> Read s1 [0] = (s2, Return r2) \<and>
           Read s2 [0] = (s3, Return r3) \<and> snd (ReadAt stream2 [0, 0, 0] 0) = Return r \<and>
           got r1 @ got r2 @ got r3 = got r \<and>
           rr_buf r1 @ rr_buf r2 @ rr_buf r3 = rr_buf r \<and>
           globalOffset s3 = 3) \<and>
   rr_buf (case snd (ReadAt stream2 [0, 0, 0] 0) of Return r \<Rightarrow> r) = [1, 2, 3]"
proof -
  have c: "globalOffset stream2 = 0" by (simp add: stream2_def)
  have fit: "length [0 :: byte] + length [0 :: byte] + length [0 :: byte]
               \<le> length (concat [[1, 2], [3 :: byte]])" by simp
  have b: "length (concat [[1, 2], [3 :: byte]])
             + (length [0 :: byte] + length [0 :: byte] + length [0 :: byte]) < 2 ^ 63" by simp
  have lp: "length [0, 0, 0 :: byte] = length [0 :: byte] + length [0 :: byte] + length [0 :: byte]"
    by simp
  have e: "rr_buf (case snd (ReadAt stream2 [0, 0, 0] 0) of Return r \<Rightarrow> r) = [1, 2, 3]"
    by (simp add: eval_defs)
  show ?thesis
    using Read_thrice_is_ReadAt [OF stream2_served c fit b lp] c e by simp
qed

section \<open>The byte count of a read that runs past the end\<close>

text \<open>
  Claim C1, at a read that starts inside the stream and runs past its end. The
  segments hold \<open>[1, 2]\<close> and \<open>[3]\<close>; a read of three bytes at offset 1 writes the
  clamped slice \<open>[2, 3]\<close> into the buffer in two fetches, and then returns the byte
  count 0 with \<open>EOF\<close>: the count accumulated in \<open>n\<close> is dropped when the loop ends.
\<close>

theorem ReadAt_tail_count_zero:
  "snd (ReadAt stream2 [0, 0, 0] 1) =
     Return \<lparr>rr_n = 0, rr_err = Some EOF, rr_buf = [2, 3, 0],
       rr_fetches =
         [\<lparr>f_input = \<lparr>Bucket = ''bk'', Key = ''a'', Range = (1, 1)\<rparr>,
            f_lo = 0, f_hi = 1, f_m = 1\<rparr>,
          \<lparr>f_input = \<lparr>Bucket = ''bk'', Key = ''b'', Range = (0, 0)\<rparr>,
            f_lo = 1, f_hi = 2, f_m = 1\<rparr>]\<rparr>"
  by (simp add: eval_defs)

text \<open>
  Claim C2, at an offset inside the stream. The total size is 3; a read of two bytes at
  offset 2 fetches the last byte into the buffer and returns zero bytes with \<open>EOF\<close>,
  although the offset is below the total size and part of the request was satisfied.
\<close>

theorem ReadAt_EOF_inside_stream:
  "total_size stream2 = 3 \<and>
   snd (ReadAt stream2 [0, 0] 2) =
     Return \<lparr>rr_n = 0, rr_err = Some EOF, rr_buf = [3, 0],
       rr_fetches =
         [\<lparr>f_input = \<lparr>Bucket = ''bk'', Key = ''b'', Range = (0, 0)\<rparr>,
            f_lo = 0, f_hi = 1, f_m = 1\<rparr>]\<rparr>"
  by (simp add: eval_defs total_size_def seg_sizes_def)

section \<open>The number and order of the fetches\<close>

lemma spanned_crossed:
  "spanned s g L = card (crossed (seg_sizes s) g L)"
proof -
  have "set (filter (\<lambda>c. g < c \<and> c < g + L) (boundaries s)) = crossed (seg_sizes s) g L"
    unfolding boundaries_def crossed_def total_size_def by auto
  then show ?thesis unfolding spanned_def by simp
qed

text \<open>
  Claim C3. Over a service that serves the segments, a read that starts inside the
  stream and spans \<open>k\<close> segment boundaries issues exactly \<open>k + 1\<close> fetches (one, when
  its range lies within one segment), to segments in segment order. Each fetch asks
  one segment for a range of its contents as long as its destination slice, returns
  that many bytes, and the slice of the buffer holds exactly the bytes asked for. The
  slices follow one another from the start of the buffer up to the end of the data
  read, and the buffer holds the flat byte array from the offset on.
\<close>

theorem ReadAt_fetches:
  assumes sv: "list_all2 serves (objectMembers s) ds" and nn: "0 \<le>s off"
    and inside: "nat (sint off) < total_size s"
    and b: "total_size s + length p < 2 ^ 63"
  shows "\<exists>r. snd (ReadAt s p off) = Return r \<and>
           length (rr_fetches r) = Suc (spanned s (nat (sint off)) (length p)) \<and>
           (\<exists>objs'. subseq objs' (objectMembers s) \<and>
              map (\<lambda>f. (Bucket (f_input f), Key (f_input f))) (rr_fetches r) =
              map (\<lambda>obj. (bucketName obj, key obj)) objs') \<and>
           (\<forall>f \<in> set (rr_fetches r).
              \<exists>i lo. i < length (objectMembers s) \<and>
                f_input f = \<lparr>Bucket = bucketName (objectMembers s ! i),
                             Key = key (objectMembers s ! i),
                             Range = (of_nat lo, of_nat (lo + f_m f) - 1)\<rparr> \<and>
                lo + f_m f \<le> length (ds ! i) \<and>
                f_m f = f_hi f - f_lo f \<and> f_lo f \<le> f_hi f \<and> f_hi f \<le> length p \<and>
                take (f_m f) (drop (f_lo f) (rr_buf r)) = take (f_m f) (drop lo (ds ! i))) \<and>
           concat (map (\<lambda>f. [f_lo f..<f_hi f]) (rr_fetches r)) =
             [0..<min (length p) (total_size s - nat (sint off))] \<and>
           rr_buf r = take (length p) (drop (nat (sint off)) (concat ds))
                        @ drop (min (length p) (total_size s - nat (sint off))) p"
proof -
  define g where "g = nat (sint off)"
  have off: "off = of_nat g" unfolding g_def using nn by (simp add: of_nat_nat_sint64)
  have g63: "g < 2 ^ 63" unfolding g_def by (rule nat_sint_bound64)
  have ts: "total_size s = length (concat ds)" using sv by (rule served_total_size)
  have ss: "seg_sizes s = map length ds" using sv by (rule served_seg_sizes)
  have b': "length (concat ds) + length p < 2 ^ 63" using b ts by simp
  define fs where "fs = plan (objectMembers s) (map length ds) g 0 (length p)"
  define buf where "buf = take (length p) (drop g (concat ds))
                        @ drop (min (length p) (length (concat ds) - g)) p"
  have len: "length (objectMembers s) = length (map length ds)"
    using sv by (simp add: list_all2_lengthD)
  have len': "length (objectMembers s) = length ds" using len by simp
  have gt: "g < sum_list (map length ds)"
    using inside unfolding g_def [symmetric] total_size_def ss .
  have ra: "(\<exists>r. snd (ReadAt s p off) = Return r \<and> rr_fetches r = fs \<and> rr_buf r = buf)"
    unfolding off fs_def buf_def ReadAt_served [OF sv g63 b'] by simp
  have z: "(0::nat) \<le> length p" by simp
  have bf: "filled ds g 0 p = buf"
    unfolding buf_def filled_eq [OF z] by simp
  have n1: "length fs = Suc (spanned s g (length p))"
    unfolding fs_def spanned_crossed ss using length_plan [OF len gt, of 0 "length p"] by simp
  have n2: "\<exists>objs'. subseq objs' (objectMembers s) \<and>
              map (\<lambda>f. (Bucket (f_input f), Key (f_input f))) fs =
              map (\<lambda>obj. (bucketName obj, key obj)) objs'"
    unfolding fs_def by (rule plan_in_order)
  have n3: "\<forall>f \<in> set fs.
              \<exists>i lo. i < length (objectMembers s) \<and>
                f_input f = \<lparr>Bucket = bucketName (objectMembers s ! i),
                             Key = key (objectMembers s ! i),
                             Range = (of_nat lo, of_nat (lo + f_m f) - 1)\<rparr> \<and>
                lo + f_m f \<le> length (ds ! i) \<and>
                f_m f = f_hi f - f_lo f \<and> f_lo f \<le> f_hi f \<and> f_hi f \<le> length p \<and>
                take (f_m f) (drop (f_lo f) buf) = take (f_m f) (drop lo (ds ! i))"
    unfolding bf [symmetric] fs_def using plan_fetch_data [OF len' z] by blast
  have n4: "concat (map (\<lambda>f. [f_lo f..<f_hi f]) fs) = [0..<min (length p) (total_size s - g)]"
    unfolding fs_def total_size_def ss
    using plan_tiles [OF len, of 0 "length p" g] by simp
  have n5: "buf = take (length p) (drop g (concat ds))
                        @ drop (min (length p) (total_size s - g)) p"
    unfolding buf_def ts ..
  from ra obtain r where r: "snd (ReadAt s p off) = Return r" "rr_fetches r = fs"
    "rr_buf r = buf" by auto
  show ?thesis
    unfolding g_def [symmetric]
    apply (rule exI [of _ r])
    unfolding r
    using n1 n2 n3 n4 n5 by blast
qed

lemma stream2_total: "total_size stream2 = 3"
  by (simp add: total_size_def seg_sizes_def stream2_def object_a_def object_b_def)

lemma stream2_spanned:
  "spanned stream2 (nat (sint (1 :: int64))) (length [0, 0 :: byte]) = 1"
  by (simp add: total_size_def seg_sizes_def spanned_def boundaries_def stream2_def
      object_a_def object_b_def)

theorem ReadAt_fetches_witness:
  "spanned stream2 (nat (sint (1 :: int64))) (length [0, 0 :: byte]) = 1 \<and>
   (\<exists>r. snd (ReadAt stream2 [0, 0] 1) = Return r \<and>
           length (rr_fetches r) = 2 \<and>
           (\<exists>objs'. subseq objs' (objectMembers stream2) \<and>
              map (\<lambda>f. (Bucket (f_input f), Key (f_input f))) (rr_fetches r) =
              map (\<lambda>obj. (bucketName obj, key obj)) objs') \<and>
           concat (map (\<lambda>f. [f_lo f..<f_hi f]) (rr_fetches r)) = [0..<2] \<and>
           rr_buf r = [2, 3])"
proof -
  have nn: "0 \<le>s (1 :: int64)" by (simp add: word_sle_eq)
  have inside: "nat (sint (1 :: int64)) < total_size stream2" by (simp add: stream2_total)
  have b: "total_size stream2 + length [0, 0 :: byte] < 2 ^ 63" by (simp add: stream2_total)
  have m: "min (length [0, 0 :: byte]) (total_size stream2 - nat (sint (1 :: int64))) = 2"
    by (simp add: stream2_total)
  have d: "take (length [0, 0 :: byte]) (drop (nat (sint (1 :: int64))) (concat [[1, 2], [3 :: byte]]))
             @ drop 2 [0, 0 :: byte] = [2, 3]"
    by simp
  obtain r where r: "snd (ReadAt stream2 [0, 0] 1) = Return r"
    "length (rr_fetches r) = Suc (spanned stream2 (nat (sint (1 :: int64))) (length [0, 0 :: byte]))"
    "\<exists>objs'. subseq objs' (objectMembers stream2) \<and>
              map (\<lambda>f. (Bucket (f_input f), Key (f_input f))) (rr_fetches r) =
              map (\<lambda>obj. (bucketName obj, key obj)) objs'"
    "concat (map (\<lambda>f. [f_lo f..<f_hi f]) (rr_fetches r)) =
       [0..<min (length [0, 0 :: byte]) (total_size stream2 - nat (sint (1 :: int64)))]"
    "rr_buf r = take (length [0, 0 :: byte]) (drop (nat (sint (1 :: int64))) (concat [[1, 2], [3 :: byte]]))
       @ drop (min (length [0, 0 :: byte]) (total_size stream2 - nat (sint (1 :: int64)))) [0, 0]"
    using ReadAt_fetches [OF stream2_served nn inside b] by blast
  have l: "length (rr_fetches r) = 2" using r(2) unfolding stream2_spanned by simp
  have bufv: "rr_buf r = [2, 3]" using r(5) unfolding m d .
  show ?thesis
    using r(1) l r(3) r(4) [unfolded m] bufv stream2_spanned by blast
qed

section \<open>The cursor stays non-negative\<close>

lemma Object_ReadAt_success:
  "Object_ReadAt obj p off = (m, None, p', input) \<Longrightarrow> m = length p \<and> length p' = length p"
  by (auto simp: Object_ReadAt_def ReadFull_def Let_def split: sum.splits if_splits)

lemma ReadAt_loop_success_bound:
  assumes "\<forall>obj \<in> set objs. 0 \<le>s size_o obj" "q \<le> length p" "o1 < 2 ^ 63"
    "sum_list (map (\<lambda>obj. nat (sint (size_o obj))) objs) + length p < 2 ^ 63"
    "ReadAt_loop objs p (of_nat o1) (of_nat q) n tr = Return r" "rr_err r = None"
  shows "o1 + (rr_n r - n) \<le> sum_list (map (\<lambda>obj. nat (sint (size_o obj))) objs) \<and> n \<le> rr_n r"
  using assms
proof (induction objs arbitrary: o1 q p n tr)
  case Nil
  then show ?case by auto
next
  case (Cons obj objs)
  define sz where "sz = nat (sint (size_o obj))"
  define T where "T = sum_list (map (\<lambda>obj. nat (sint (size_o obj))) objs)"
  have so: "size_o obj = of_nat sz"
    unfolding sz_def using Cons.prems(1) by (simp add: of_nat_nat_sint64)
  have nonneg: "\<forall>obj \<in> set objs. 0 \<le>s size_o obj" using Cons.prems(1) by simp
  have tot: "sz + T + length p < 2 ^ 63" using Cons.prems(4) unfolding sz_def T_def by simp
  then have sz63: "sz < 2 ^ 63" and lp: "length p < 2 ^ 63" and rest: "T + length p < 2 ^ 63"
    by linarith+
  have q63: "q < 2 ^ 63" using Cons.prems(2) lp by linarith
  note run = Cons.prems(5)
  show ?case
  proof (cases "sz \<le> o1")
    case True
    have c: "size_o obj \<le>s of_nat o1"
      using True sz63 Cons.prems(3) by (simp add: so sle_of_nat64)
    have o': "o1 - sz < 2 ^ 63" using Cons.prems(3) by simp
    have w: "(of_nat o1 :: int64) - size_o obj = of_nat (o1 - sz)" using True by (simp add: so)
    have "ReadAt_loop objs p (of_nat (o1 - sz)) (of_nat q) n tr = Return r"
      using run c w by simp
    from Cons.IH [OF nonneg Cons.prems(2) o' rest [unfolded T_def] this Cons.prems(6)]
    show ?thesis
      unfolding T_def [symmetric] sz_def [symmetric] list.map sum_list.Cons using True by linarith
  next
    case False
    then have olt: "o1 < sz" by simp
    have c: "\<not> size_o obj \<le>s of_nat o1"
      using False sz63 Cons.prems(3) by (simp add: so sle_of_nat64)
    have ok: "slice_ok p (of_nat q) (len64 p)"
      using Cons.prems(2) lp q63 by (simp add: slice_ok_def len64_def word_sle_eq sint_of_nat64)
    have sl: "slice p (of_nat q) (len64 p) = drop q p"
      using lp q63 by (simp add: slice_def len64_def nat_sint_of_nat64)
    have e1: "(of_nat o1 :: int64) + len64 (drop q p) - 1 + 1 = of_nat (o1 + (length p - q))"
      by (simp add: len64_def)
    have b: "o1 + (length p - q) < 2 ^ 63" using olt tot by linarith
    show ?thesis
    proof (cases "sz < o1 + (length p - q)")
      case True
      have "size_o obj <s of_nat (o1 + (length p - q))"
        using True sz63 b by (simp add: so sless_of_nat64 del: of_nat_add)
      then have c2: "size_o obj <s of_nat o1 + len64 (drop q p) - 1 + 1"
        by (simp only: e1 simp_thms)
      define q' where "q' = q + (sz - o1)"
      have q'l: "q' < length p" using True olt Cons.prems(2) unfolding q'_def by linarith
      then have q'63: "q' < 2 ^ 63" using lp by linarith
      have np: "(of_nat q :: int64) + (size_o obj - of_nat o1) = of_nat q'"
        unfolding q'_def using olt by (simp add: so)
      have sq': "sint (of_nat q' :: int64) = int q'"
        using q'63 by (rule sint_of_nat64)
      have qq': "q \<le> q'" unfolding q'_def by simp
      have ok2: "slice_ok p (of_nat q) (of_nat q')"
        using q63 q'l qq' unfolding slice_ok_def word_sle_eq sq' by (simp add: sint_of_nat64)
      have sl2: "slice p (of_nat q) (of_nat q') = take (sz - o1) (drop q p)"
        using q63 unfolding slice_def sq' by (simp add: nat_sint_of_nat64 q'_def nat_add_distrib)
      have lsub: "length (take (sz - o1) (drop q p)) = sz - o1"
        using q'l unfolding q'_def by simp
      obtain m err sub input where
        rd: "Object_ReadAt obj (take (sz - o1) (drop q p)) (of_nat o1) = (m, err, sub, input)"
        by (cases "Object_ReadAt obj (take (sz - o1) (drop q p)) (of_nat o1)") auto
      show ?thesis
      proof (cases err)
        case (Some e)
        have "rr_err r = Some e"
          using run
          by (simp only: ReadAt_loop.simps c ok c2 ok2 if_False if_True Let_def sl np simp_thms
              sl2 rd prod.case Some option.case) auto
        then show ?thesis using Cons.prems(6) by simp
      next
        case None
        have ms: "m = sz - o1" "length sub = sz - o1"
          using Object_ReadAt_success [OF rd [unfolded None]] lsub by simp_all
        define p' where "p' = write_back p (of_nat q) sub"
        have lp': "length p' = length p"
          unfolding p'_def write_back_def nat_sint_of_nat64 [OF q63]
          using q'l ms(2) unfolding q'_def by simp
        have step: "ReadAt_loop objs p' (of_nat 0) (of_nat q') (n + m)
              (tr @ [\<lparr>f_input = input, f_lo = nat (sint (of_nat q :: int64)),
                      f_hi = nat (sint (of_nat q' :: int64)), f_m = m\<rparr>]) = Return r"
          using run
          by (simp only: ReadAt_loop.simps c ok c2 ok2 if_False if_True Let_def sl np simp_thms
              sl2 rd prod.case None option.case p'_def semiring_1_class.of_nat_0)
        have q'le: "q' \<le> length p'" using q'l lp' by simp
        have z: "(0::nat) < 2 ^ 63" by simp
        have rest': "sum_list (map (\<lambda>obj. nat (sint (size_o obj))) objs) + length p' < 2 ^ 63"
          using rest lp' unfolding T_def by simp
        from Cons.IH [OF nonneg q'le z rest' step Cons.prems(6)]
        show ?thesis
          unfolding T_def [symmetric] sz_def [symmetric] list.map sum_list.Cons ms(1)
          using olt by linarith
      qed
    next
      case False
      have "\<not> size_o obj <s of_nat (o1 + (length p - q))"
        using False sz63 b by (simp add: so sless_of_nat64 del: of_nat_add)
      then have c2: "\<not> size_o obj <s of_nat o1 + len64 (drop q p) - 1 + 1"
        by (simp only: e1 simp_thms)
      obtain m err sub input where
        rd: "Object_ReadAt obj (drop q p) (of_nat o1) = (m, err, sub, input)"
        by (cases "Object_ReadAt obj (drop q p) (of_nat o1)") auto
      show ?thesis
      proof (cases err)
        case (Some e)
        have "rr_err r = Some e"
          using run
          by (simp only: ReadAt_loop.simps c ok c2 if_False if_True Let_def sl simp_thms
              rd prod.case Some option.case) auto
        then show ?thesis using Cons.prems(6) by simp
      next
        case None
        have ms: "m = length p - q"
          using Object_ReadAt_success [OF rd [unfolded None]] by simp
        have "rr_n r = n + m"
          using run
          by (simp only: ReadAt_loop.simps c ok c2 if_False if_True Let_def sl simp_thms
              rd prod.case None option.case) auto
        then show ?thesis
          unfolding T_def [symmetric] sz_def [symmetric] list.map sum_list.Cons ms
          using False olt by linarith
      qed
    qed
  qed
qed

lemma Read_keeps_cursor_nonneg:
  assumes nonneg: "\<forall>obj \<in> set (objectMembers s). 0 \<le>s size_o obj"
    and fit: "total_size s + length p < 2 ^ 63"
    and cur: "0 \<le>s globalOffset s"
  shows "0 \<le>s globalOffset (fst (Read s p)) \<and> objectMembers (fst (Read s p)) = objectMembers s"
proof -
  define g where "g = nat (sint (globalOffset s))"
  have c: "globalOffset s = of_nat g" unfolding g_def using cur by (simp add: of_nat_nat_sint64)
  have g63: "g < 2 ^ 63" unfolding g_def by (rule nat_sint_bound64)
  show ?thesis
  proof (cases "ReadAt_loop (objectMembers s) p (of_nat g) (of_nat 0) 0 []")
    case Panic
    then show ?thesis using cur by (simp add: Read_def ReadAt_def c)
  next
    case (Return r)
    show ?thesis
    proof (cases "rr_err r")
      case (Some e)
      then show ?thesis using Return cur by (simp add: Read_def ReadAt_def c)
    next
      case None
      have z: "(0::nat) \<le> length p" by simp
      have "g + (rr_n r - 0) \<le> total_size s \<and> 0 \<le> rr_n r"
        unfolding total_size_def seg_sizes_def
        by (rule ReadAt_loop_success_bound
            [OF nonneg z g63 fit [unfolded total_size_def seg_sizes_def] Return None])
      then have "g + rr_n r < 2 ^ 63" using fit by linarith
      then have "sint (of_nat (g + rr_n r) :: int64) = int (g + rr_n r)" by (rule sint_of_nat64)
      then have "0 \<le>s (of_nat g + of_nat (rr_n r) :: int64)"
        by (simp add: word_sle_eq)
      then show ?thesis using Return None by (simp add: Read_def ReadAt_def c)
    qed
  qed
qed

lemma Seek_keeps_cursor_nonneg:
  "0 \<le>s globalOffset s \<Longrightarrow>
     0 \<le>s globalOffset (fst (Seek s offset whence)) \<and>
     objectMembers (fst (Seek s offset whence)) = objectMembers s"
  by (auto simp: Seek_def word_sle_eq word_sless_alt split: option.splits if_splits)

lemma apply_op_keeps_cursor_nonneg:
  assumes "\<forall>obj \<in> set (objectMembers s). 0 \<le>s size_o obj"
    "total_size s + buffer_length x < 2 ^ 63" "0 \<le>s globalOffset s"
  shows "0 \<le>s globalOffset (apply_op s x) \<and> objectMembers (apply_op s x) = objectMembers s"
proof (cases x)
  case (OpRead p)
  then show ?thesis using Read_keeps_cursor_nonneg [of s p] assms by simp
next
  case (OpReadAt p off)
  then show ?thesis using assms(3) by (simp add: ReadAt_def)
next
  case (OpSeek offset whence)
  then show ?thesis using Seek_keeps_cursor_nonneg [OF assms(3)] by simp
qed

lemma run_keeps_cursor_nonneg:
  assumes "\<forall>obj \<in> set (objectMembers s). 0 \<le>s size_o obj"
    "\<forall>x \<in> set ops. total_size s + buffer_length x < 2 ^ 63" "0 \<le>s globalOffset s"
  shows "0 \<le>s globalOffset (run s ops) \<and> objectMembers (run s ops) = objectMembers s"
  using assms
proof (induction ops arbitrary: s)
  case Nil
  then show ?case by (simp add: run_def)
next
  case (Cons x ops)
  have fx: "total_size s + buffer_length x < 2 ^ 63" using Cons.prems(2) by simp
  note st = apply_op_keeps_cursor_nonneg [OF Cons.prems(1) fx Cons.prems(3)]
  have ts: "total_size (apply_op s x) = total_size s"
    using st by (simp add: total_size_def seg_sizes_def)
  have a: "\<forall>obj \<in> set (objectMembers (apply_op s x)). 0 \<le>s size_o obj"
    using st Cons.prems(1) by simp
  have b: "\<forall>y \<in> set ops. total_size (apply_op s x) + buffer_length y < 2 ^ 63"
    using Cons.prems(2) ts by simp
  have "0 \<le>s globalOffset (run (apply_op s x) ops) \<and>
        objectMembers (run (apply_op s x) ops) = objectMembers (apply_op s x)"
    using Cons.IH [OF a b] st by simp
  then show ?case using st by (simp add: run_def)
qed

lemma New_loop_cursor:
  "NewS3ReadSeeker c b keyGroup = (Return (Inr s), tr) \<Longrightarrow> globalOffset s = 0"
  by (auto simp: NewS3ReadSeeker_def split: prod.splits outcome.splits sum.splits)

text \<open>
  Claim C9, as the code has it. When the segment sizes are non-negative and the total
  size plus the length of every buffer read into stays below \<open>2 ^ 63\<close>, the cursor of
  a constructed stream is never negative: it is 0 after the construction, a \<open>Seek\<close>
  commits only a non-negative value and otherwise leaves the cursor as it is, and a
  successful \<open>Read\<close> advances it by the byte count, which stays within the total size.
\<close>

theorem cursor_never_negative:
  assumes "NewS3ReadSeeker c b keyGroup = (Return (Inr s), tr)"
    "\<forall>obj \<in> set (objectMembers s). 0 \<le>s size_o obj"
    "\<forall>x \<in> set ops. total_size s + buffer_length x < 2 ^ 63"
  shows "0 \<le>s globalOffset (run s ops)"
proof -
  have "globalOffset s = 0" using assms(1) by (rule New_loop_cursor)
  then have "0 \<le>s globalOffset s" by (simp add: word_sle_eq)
  then show ?thesis
    using run_keeps_cursor_nonneg [OF assms(2) assms(3)] by simp
qed

theorem cursor_never_negative_witness:
  "globalOffset (run stream2 [OpSeek 1 SeekStart, OpRead [0, 0], OpSeek (- 5) SeekCurrent,
      OpReadAt [0] 0, OpRead [0]]) = 3 \<and>
   0 \<le>s globalOffset (run stream2 [OpSeek 1 SeekStart, OpRead [0, 0], OpSeek (- 5) SeekCurrent,
      OpReadAt [0] 0, OpRead [0]])"
proof -
  have new: "NewS3ReadSeeker (mem_client store2) ''bk'' [''a'', ''b''] =
     (Return (Inr stream2),
      [\<lparr>HBucket = ''bk'', HKey = ''a''\<rparr>, \<lparr>HBucket = ''bk'', HKey = ''b''\<rparr>])"
    by (simp add: NewS3ReadSeeker_def mem_client_def mem_HeadObject_def store2_def stream2_def
        object_a_def object_b_def)
  have sizes: "\<forall>obj \<in> set (objectMembers stream2). 0 \<le>s size_o obj"
    by (simp add: stream2_def object_a_def object_b_def word_sle_eq)
  have fits: "\<forall>x \<in> set [OpSeek 1 SeekStart, OpRead [0, 0], OpSeek (- 5) SeekCurrent,
      OpReadAt [0] 0, OpRead [0]]. total_size stream2 + buffer_length x < 2 ^ 63"
    by (simp add: stream2_total)
  have v: "globalOffset (run stream2 [OpSeek 1 SeekStart, OpRead [0, 0],
      OpSeek (- 5) SeekCurrent, OpReadAt [0] 0, OpRead [0]]) = 3"
    by (simp add: run_def Seek_def SeekStart_def SeekCurrent_def SeekEnd_def eval_defs)
  show ?thesis
    using cursor_never_negative [OF new sizes fits] v by simp
qed

text \<open>
  Without the bound the cursor can become negative. The one segment has the recorded
  size \<open>2 ^ 63 - 1\<close>; after a seek to \<open>2 ^ 63 - 2\<close> a read of three bytes succeeds, and
  the addition of the byte count to the cursor wraps. Without non-negative sizes it can
  as well: skipping a segment of recorded size \<open>-3\<close> moves the offset up, a read of five
  bytes at \<open>2 ^ 63 - 3\<close> succeeds on the next segment although the total size is 10, and
  the cursor wraps.
\<close>

theorem cursor_wraps_negative:
  "NewS3ReadSeeker big_client ''bk'' [''a''] =
     (Return (Inr big_stream), [\<lparr>HBucket = ''bk'', HKey = ''a''\<rparr>]) \<and>
   snd (Seek big_stream 9223372036854775806 SeekStart) = (9223372036854775806, None) \<and>
   rr_err (case snd (Read (fst (Seek big_stream 9223372036854775806 SeekStart)) [0, 0, 0]) of
             Return r \<Rightarrow> r) = None \<and>
   sint (globalOffset (run big_stream [OpSeek 9223372036854775806 SeekStart, OpRead [0, 0, 0]]))
     = - 9223372036854775807 \<and>
   NewS3ReadSeeker neg_client ''bk'' [''a'', ''b''] =
     (Return (Inr neg_stream),
      [\<lparr>HBucket = ''bk'', HKey = ''a''\<rparr>, \<lparr>HBucket = ''bk'', HKey = ''b''\<rparr>]) \<and>
   total_size neg_stream = 10 \<and>
   sint (globalOffset (run neg_stream
           [OpSeek 9223372036854775805 SeekStart, OpRead [0, 0, 0, 0, 0]]))
     = - 9223372036854775806"
  by (simp add: NewS3ReadSeeker_def big_client_def big_stream_def neg_client_def neg_stream_def
      run_def Seek_def SeekStart_def Read_def ReadAt_def Object_ReadAt_def ReadFull_def
      slice_ok_def slice_def write_back_def len64_def Let_def word_sle_eq word_sless_alt
      total_size_def seg_sizes_def)

end
